theory Spec2Isabelle
  imports
    Complex_Main
    "HOL-Library.List_Lexorder"
    "HOL-Library.Char_ord"
    "HOL-Library.Multiset"
    "HOL-Library.AList"
begin

section \<open>The Cascade memory store: JSON values, hashing, records, backups, safety\<close>

text \<open>
  The development embeds the three Python classes of \<^verbatim>\<open>submodules/mcp-server/.cascade\<close>:
  \<^verbatim>\<open>CascadeCore\<close> (cascade\_core.py: hashed save and load with per-name backups),
  \<^verbatim>\<open>CascadeMemory\<close> (cascade\_memory.py: versioned records behind an index file) and
  \<^verbatim>\<open>CascadeSafety\<close> (cascade\_safety.py: safety records and backup pruning).

  What the Python takes from its environment is made a parameter of the model:
  the clock (\<open>now\<close>, \<open>timestamp\<close>), the fresh uuid (\<open>memory_id\<close>), SHA-256
  (\<open>sha256_hex\<close>), the JSON schema of meta/schema.json (\<open>valid\<close>), the set of
  entries the file system refuses to delete, and the lock files held by other callers.
\<close>

subsection \<open>JSON values and Python's operations on them\<close>

text \<open>
  The values that \<^verbatim>\<open>json.load\<close> returns and \<^verbatim>\<open>json.dump\<close> accepts, without
  floating-point numbers. A Python \<^verbatim>\<open>dict\<close> is an association list in insertion order;
  its keys are strings, as in every value read back from a file.
\<close>

datatype json =
    JNull
  | JBool bool
  | JInt int
  | JStr string
  | JList "json list"
  | JObj "(string \<times> json) list"

text \<open>The exceptions that the modelled code can raise.\<close>

datatype error =
    KeyError string
  | TypeError
  | AttributeError
  | ValueError string
  | FileNotFoundError string
  | JSONDecodeError
  | OSError string
  | RuntimeError

text \<open>Sequencing of steps that may raise: the first exception ends the block.\<close>

definition and_then :: "error + 'a \<Rightarrow> ('a \<Rightarrow> error + 'b) \<Rightarrow> error + 'b" where
  "and_then m f = (case m of Inl e \<Rightarrow> Inl e | Inr x \<Rightarrow> f x)"

text \<open>\<^verbatim>\<open>d[k]\<close> for a string \<open>k\<close>: only a dict can be subscripted by a string.\<close>

fun subscript :: "json \<Rightarrow> string \<Rightarrow> error + json" where
  "subscript (JObj kvs) k = (case map_of kvs k of None \<Rightarrow> Inl (KeyError k) | Some v \<Rightarrow> Inr v)"
| "subscript _ k = Inl TypeError"

text \<open>\<^verbatim>\<open>d[k] = v\<close>: an existing key keeps its place, a new key goes last.\<close>

fun setitem :: "json \<Rightarrow> string \<Rightarrow> json \<Rightarrow> error + json" where
  "setitem (JObj kvs) k v = Inr (JObj (AList.update k v kvs))"
| "setitem _ k v = Inl TypeError"

text \<open>\<^verbatim>\<open>del d[k]\<close>.\<close>

fun delitem :: "json \<Rightarrow> string \<Rightarrow> error + json" where
  "delitem (JObj kvs) k =
     (if k \<in> fst ` set kvs then Inr (JObj (AList.delete k kvs)) else Inl (KeyError k))"
| "delitem _ k = Inl TypeError"

text \<open>Whether the string \<open>k\<close> occurs inside the string \<open>s\<close> (Python's \<^verbatim>\<open>k in s\<close> on strings).\<close>

fun substring :: "string \<Rightarrow> string \<Rightarrow> bool" where
  "substring k [] = (k = [])"
| "substring k (c # cs) = (take (length k) (c # cs) = k \<or> substring k cs)"

text \<open>
  \<^verbatim>\<open>k in d\<close> for a string \<open>k\<close>: key membership in a dict, element membership in a
  list, substring test on a string, \<^verbatim>\<open>TypeError\<close> on anything else.
\<close>

fun contains :: "json \<Rightarrow> string \<Rightarrow> error + bool" where
  "contains (JObj kvs) k = Inr (k \<in> fst ` set kvs)"
| "contains (JList xs) k = Inr (JStr k \<in> set xs)"
| "contains (JStr s) k = Inr (substring k s)"
| "contains _ k = Inl TypeError"

text \<open>Truth value of a value in \<^verbatim>\<open>if x:\<close> and \<^verbatim>\<open>x or y\<close>.\<close>

fun truthy :: "json \<Rightarrow> bool" where
  "truthy JNull = False"
| "truthy (JBool b) = b"
| "truthy (JInt i) = (i \<noteq> 0)"
| "truthy (JStr s) = (s \<noteq> [])"
| "truthy (JList xs) = (xs \<noteq> [])"
| "truthy (JObj kvs) = (kvs \<noteq> [])"

text \<open>\<^verbatim>\<open>x += 1\<close>: defined on integers and booleans (a Python \<^verbatim>\<open>bool\<close> is an \<^verbatim>\<open>int\<close>).\<close>

fun plus_one :: "json \<Rightarrow> error + json" where
  "plus_one (JInt i) = Inr (JInt (i + 1))"
| "plus_one (JBool b) = Inr (JInt (of_bool b + 1))"
| "plus_one _ = Inl TypeError"

text \<open>\<^verbatim>\<open>x < s\<close> for a string \<open>s\<close>: strings compare lexicographically, anything else raises.\<close>

fun less_str :: "json \<Rightarrow> string \<Rightarrow> error + bool" where
  "less_str (JStr a) s = Inr (a < s)"
| "less_str _ s = Inl TypeError"

subsection \<open>Canonical serialisation and the content digest\<close>

text \<open>\<^verbatim>\<open>sep.join(xs)\<close>.\<close>

fun join :: "string \<Rightarrow> string list \<Rightarrow> string" where
  "join sep [] = []"
| "join sep [x] = x"
| "join sep (x # y # ys) = x @ sep @ join sep (y # ys)"

function digits :: "nat \<Rightarrow> string" where
  "digits n =
     (if n < 10 then [char_of (48 + n)] else digits (n div 10) @ [char_of (48 + n mod 10)])"
  by pat_completeness auto
termination
  by (relation "measure id") auto

definition int_repr :: "int \<Rightarrow> string" where
  "int_repr i = (if i < 0 then CHR ''-'' # digits (nat (- i)) else digits (nat i))"

definition hex_digit :: "nat \<Rightarrow> char" where
  "hex_digit n = ''0123456789abcdef'' ! (n mod 16)"

text \<open>
  The escapes of \<^verbatim>\<open>json.dumps\<close> with \<^verbatim>\<open>ensure_ascii=True\<close>: quote and backslash, the
  five short escapes, and a four-digit hexadecimal escape for every other character outside the printable
  ASCII range.
\<close>

definition escape_char :: "char \<Rightarrow> string" where
  "escape_char c =
     (if c = CHR 0x22 then [CHR 0x5C, CHR 0x22]
      else if c = CHR 0x5C then [CHR 0x5C, CHR 0x5C]
      else if c = CHR 0x0A then [CHR 0x5C, CHR ''n'']
      else if c = CHR 0x0D then [CHR 0x5C, CHR ''r'']
      else if c = CHR 0x09 then [CHR 0x5C, CHR ''t'']
      else if c = CHR 0x08 then [CHR 0x5C, CHR ''b'']
      else if c = CHR 0x0C then [CHR 0x5C, CHR ''f'']
      else if (of_char c :: nat) < 32 \<or> 126 < (of_char c :: nat)
        then [CHR 0x5C, CHR ''u'', CHR ''0'', CHR ''0'',
              hex_digit (of_char c div 16), hex_digit (of_char c)]
      else [c])"

definition encode_str :: "string \<Rightarrow> string" where
  "encode_str s = CHR 0x22 # concat (map escape_char s) @ [CHR 0x22]"

text \<open>
  \<^verbatim>\<open>json.dumps(data, sort_keys=True)\<close>: items separated by a comma and a space, key and
  value by a colon and a space, the items of every dict in the order of their keys.
\<close>

function dumps :: "json \<Rightarrow> string" where
  "dumps JNull = ''null''"
| "dumps (JBool b) = (if b then ''true'' else ''false'')"
| "dumps (JInt i) = int_repr i"
| "dumps (JStr s) = encode_str s"
| "dumps (JList xs) = ''['' @ join '', '' (map dumps xs) @ '']''"
| "dumps (JObj kvs) =
     ''{'' @ join '', ''
        (map (\<lambda>kv. encode_str (fst kv) @ '': '' @ dumps (snd kv)) (sort_key fst kvs)) @ ''}''"
  by pat_completeness auto
termination
proof (relation "measure size")
  fix kvs :: "(string \<times> json) list" and x
  assume "x \<in> set (sort_key fst kvs)"
  then have "x \<in> set kvs" by simp
  then have "size_prod (\<lambda>_. 0) size x \<le> size_list (size_prod (\<lambda>_. 0) size) kvs"
    by (rule size_list_estimation') simp
  then show "(snd x, JObj kvs) \<in> measure size"
    by (cases x) simp
qed (simp_all add: less_Suc_eq_le size_list_estimation')

text \<open>
  \<^verbatim>\<open>CascadeCore._hash_dict\<close>:
  \<^verbatim>\<open>hashlib.sha256(json.dumps(data, sort_keys=True).encode()).hexdigest()\<close>.
\<close>

definition hash_dict :: "(string \<Rightarrow> string) \<Rightarrow> json \<Rightarrow> string" where
  "hash_dict sha256_hex data = sha256_hex (dumps data)"

text \<open>
  Two values that differ only in the insertion order of the keys of their dicts, at any
  depth. The keys of a dict are distinct.
\<close>

inductive reordered :: "json \<Rightarrow> json \<Rightarrow> bool" where
  r_null: "reordered JNull JNull"
| r_bool: "reordered (JBool b) (JBool b)"
| r_int: "reordered (JInt i) (JInt i)"
| r_str: "reordered (JStr s) (JStr s)"
| r_list: "list_all2 reordered xs ys \<Longrightarrow> reordered (JList xs) (JList ys)"
| r_obj: "distinct (map fst kvs) \<Longrightarrow> distinct (map fst kvs') \<Longrightarrow>
          set (map fst kvs) = set (map fst kvs') \<Longrightarrow>
          (\<forall>k \<in> set (map fst kvs).
             \<exists>v v'. map_of kvs k = Some v \<and> map_of kvs' k = Some v' \<and> reordered v v') \<Longrightarrow>
          reordered (JObj kvs) (JObj kvs')"


subsection \<open>Files\<close>

text \<open>
  A file written by \<^verbatim>\<open>json.dump\<close> and read back by \<^verbatim>\<open>json.load\<close> holds a JSON
  value; a file damaged from outside may fail to parse. A path with no file maps to
  \<open>None\<close>.
\<close>

datatype contents = Text json | Corrupt

text \<open>\<^verbatim>\<open>with open(path, 'r') as f: json.load(f)\<close>.\<close>

fun json_load :: "contents option \<Rightarrow> string \<Rightarrow> error + json" where
  "json_load None path = Inl (FileNotFoundError path)"
| "json_load (Some Corrupt) path = Inl JSONDecodeError"
| "json_load (Some (Text j)) path = Inr j"

text \<open>\<^verbatim>\<open>os.path.join(base, p)\<close> needs a string \<open>p\<close>.\<close>

fun as_path :: "json \<Rightarrow> error + string" where
  "as_path (JStr p) = Inr p"
| "as_path _ = Inl TypeError"

text \<open>\<^verbatim>\<open>list(d.keys())\<close>.\<close>

fun keys :: "json \<Rightarrow> error + string list" where
  "keys (JObj kvs) = Inr (map fst kvs)"
| "keys _ = Inl AttributeError"

text \<open>
  \<^verbatim>\<open>d[k1][k2] = v\<close> and \<^verbatim>\<open>d[k1][k2][k3] = v\<close> change the inner dict in place; the
  model rebuilds the outer value around the changed inner one.
\<close>

definition set_in :: "json \<Rightarrow> string \<Rightarrow> string \<Rightarrow> json \<Rightarrow> error + json" where
  "set_in d k1 k2 v =
     and_then (subscript d k1) (\<lambda>inner.
     and_then (setitem inner k2 v) (\<lambda>inner'.
     setitem d k1 inner'))"

definition set_in3 :: "json \<Rightarrow> string \<Rightarrow> string \<Rightarrow> string \<Rightarrow> json \<Rightarrow> error + json" where
  "set_in3 d k1 k2 k3 v =
     and_then (subscript d k1) (\<lambda>inner.
     and_then (set_in inner k2 k3 v) (\<lambda>inner'.
     setitem d k1 inner'))"

subsection \<open>CascadeMemory: versioned records behind an index\<close>

text \<open>
  The state of a store: the index file \<^verbatim>\<open>meta/index.json\<close> and the record files,
  keyed by the path string that the index records for them (taken relative to the
  store's base path; different strings name different files, and none of them names the
  index file). One caller runs at a time, so \<^verbatim>\<open>_acquire_lock\<close> returns at once and
  the \<^verbatim>\<open>finally\<close> clause releases what it took: the lock table is the same before
  and after every operation and is not part of this state.
\<close>

record store =
  index_file :: "contents option"
  files :: "string \<Rightarrow> contents option"

definition index_path :: string where
  "index_path = ''meta/index.json''"

text \<open>
  \<^verbatim>\<open>_validate_memory\<close>: \<open>valid\<close> stands for \<^verbatim>\<open>jsonschema.validate\<close> against
  meta/schema.json.
\<close>

definition validate_memory :: "(json \<Rightarrow> bool) \<Rightarrow> json \<Rightarrow> error + bool" where
  "validate_memory valid memory =
     (if valid memory then Inr True else Inl (ValueError ''Invalid memory format''))"

definition default_critique :: json where
  "default_critique =
     JObj [(''strengths'', JList []), (''weaknesses'', JList []), (''improvements'', JList [])]"

text \<open>The record that \<^verbatim>\<open>create_memory\<close> builds; \<open>JNull\<close> is an omitted critique.\<close>

definition new_memory :: "string \<Rightarrow> string \<Rightarrow> string \<Rightarrow> json \<Rightarrow> json \<Rightarrow> json" where
  "new_memory memory_id now memory_type content critique =
     JObj [(''id'', JStr memory_id),
           (''type'', JStr memory_type),
           (''content'', content),
           (''created_at'', JStr now),
           (''updated_at'', JStr now),
           (''version'', JInt 1),
           (''critique'', if truthy critique then critique else default_critique)]"

definition record_path :: "string \<Rightarrow> string" where
  "record_path memory_id = ''data/memories/'' @ memory_id @ ''.json''"

definition index_entry :: "string \<Rightarrow> string \<Rightarrow> string \<Rightarrow> json" where
  "index_entry memory_id now memory_type =
     JObj [(''path'', JStr (record_path memory_id)),
           (''type'', JStr memory_type),
           (''version'', JInt 1),
           (''last_updated'', JStr now)]"

text \<open>
  \<^verbatim>\<open>create_memory\<close>: validation comes first; then, under the index lock, the index is
  read and extended in memory, the record file is written, and the index is written.
\<close>

definition create_memory ::
  "(json \<Rightarrow> bool) \<Rightarrow> string \<Rightarrow> string \<Rightarrow> string \<Rightarrow> json \<Rightarrow> json \<Rightarrow> store
     \<Rightarrow> (error + string) \<times> store" where
  "create_memory valid memory_id now memory_type content critique s =
     (let memory = new_memory memory_id now memory_type content critique in
      case validate_memory valid memory of
        Inl e \<Rightarrow> (Inl e, s)
      | Inr _ \<Rightarrow>
          (case and_then (json_load (index_file s) index_path) (\<lambda>index.
                set_in index ''memories'' memory_id (index_entry memory_id now memory_type)) of
             Inl e \<Rightarrow> (Inl e, s)
           | Inr index' \<Rightarrow>
               (Inr memory_id,
                s\<lparr>files := (files s)(record_path memory_id \<mapsto> Text memory),
                  index_file := Some (Text index')\<rparr>)))"

text \<open>
  The part of \<^verbatim>\<open>update_memory\<close> before its first write: the index and the record
  are read, the record is changed in memory and validated.
\<close>

definition updated_record ::
  "(json \<Rightarrow> bool) \<Rightarrow> string \<Rightarrow> string \<Rightarrow> json \<Rightarrow> json \<Rightarrow> store
     \<Rightarrow> error + (json \<times> string \<times> json)" where
  "updated_record valid now memory_id content critique s =
     and_then (json_load (index_file s) index_path) (\<lambda>index.
     and_then (subscript index ''memories'') (\<lambda>mems.
     and_then (contains mems memory_id) (\<lambda>present.
     if \<not> present then Inl (ValueError (''Memory '' @ memory_id @ '' not found''))
     else
     and_then (subscript mems memory_id) (\<lambda>entry.
     and_then (subscript entry ''path'') (\<lambda>p.
     and_then (as_path p) (\<lambda>memory_path.
     and_then (json_load (files s memory_path) memory_path) (\<lambda>memory.
     and_then (setitem memory ''content'' content) (\<lambda>m1.
     and_then (setitem m1 ''updated_at'' (JStr now)) (\<lambda>m2.
     and_then (subscript m2 ''version'') (\<lambda>v.
     and_then (plus_one v) (\<lambda>v'.
     and_then (setitem m2 ''version'' v') (\<lambda>m3.
     and_then (if truthy critique then setitem m3 ''critique'' critique else Inr m3) (\<lambda>m4.
     and_then (validate_memory valid m4) (\<lambda>_.
     Inr (index, memory_path, m4)))))))))))))))"

text \<open>The index entry of the record takes the record's new version and time.\<close>

definition updated_index :: "json \<Rightarrow> string \<Rightarrow> json \<Rightarrow> error + json" where
  "updated_index index memory_id memory =
     and_then (subscript memory ''version'') (\<lambda>ver.
     and_then (set_in3 index ''memories'' memory_id ''version'' ver) (\<lambda>i1.
     and_then (subscript memory ''updated_at'') (\<lambda>upd.
     set_in3 i1 ''memories'' memory_id ''last_updated'' upd)))"

text \<open>
  \<^verbatim>\<open>update_memory\<close>: an exception before the record is written leaves the store as
  it was; the record is written before the index entry is changed and the index written.
\<close>

definition update_memory ::
  "(json \<Rightarrow> bool) \<Rightarrow> string \<Rightarrow> string \<Rightarrow> json \<Rightarrow> json \<Rightarrow> store \<Rightarrow> (error + bool) \<times> store" where
  "update_memory valid now memory_id content critique s =
     (case updated_record valid now memory_id content critique s of
        Inl e \<Rightarrow> (Inl e, s)
      | Inr (index, memory_path, memory) \<Rightarrow>
          (let s1 = s\<lparr>files := (files s)(memory_path \<mapsto> Text memory)\<rparr> in
           case updated_index index memory_id memory of
             Inl e \<Rightarrow> (Inl e, s1)
           | Inr index' \<Rightarrow> (Inr True, s1\<lparr>index_file := Some (Text index')\<rparr>)))"

text \<open>\<^verbatim>\<open>get_memory\<close>: the index is read, then the record file it points to.\<close>

definition get_memory :: "store \<Rightarrow> string \<Rightarrow> error + json" where
  "get_memory s memory_id =
     and_then (json_load (index_file s) index_path) (\<lambda>index.
     and_then (subscript index ''memories'') (\<lambda>mems.
     and_then (contains mems memory_id) (\<lambda>present.
     if \<not> present then Inl (ValueError (''Memory '' @ memory_id @ '' not found''))
     else
     and_then (subscript mems memory_id) (\<lambda>entry.
     and_then (subscript entry ''path'') (\<lambda>p.
     and_then (as_path p) (\<lambda>memory_path.
     json_load (files s memory_path) memory_path))))))"

text \<open>
  \<^verbatim>\<open>"expires_at" in memory and memory["expires_at"] < now\<close>, the test of
  \<^verbatim>\<open>cleanup_expired\<close>.
\<close>

definition is_expired :: "string \<Rightarrow> json \<Rightarrow> error + bool" where
  "is_expired now memory =
     and_then (contains memory ''expires_at'') (\<lambda>has.
     if \<not> has then Inr False
     else and_then (subscript memory ''expires_at'') (\<lambda>exp. less_str exp now))"

text \<open>
  The loop of \<^verbatim>\<open>cleanup_expired\<close> over the ids of the index. \<^verbatim>\<open>get_memory\<close> reads
  the index file, which the loop does not write, and the record file as it is now; the
  entries are deleted from the index held in memory. An exception leaves the files
  removed so far removed.
\<close>

fun cleanup_loop ::
  "string \<Rightarrow> string list \<Rightarrow> json \<Rightarrow> store \<Rightarrow> nat \<Rightarrow> (error + json \<times> nat) \<times> store" where
  "cleanup_loop now [] index s cleaned = (Inr (index, cleaned), s)"
| "cleanup_loop now (memory_id # ids) index s cleaned =
     (case and_then (get_memory s memory_id) (is_expired now) of
        Inl e \<Rightarrow> (Inl e, s)
      | Inr False \<Rightarrow> cleanup_loop now ids index s cleaned
      | Inr True \<Rightarrow>
          (case and_then (subscript index ''memories'') (\<lambda>mems.
                and_then (subscript mems memory_id) (\<lambda>entry.
                and_then (subscript entry ''path'') (\<lambda>p.
                and_then (as_path p) (\<lambda>memory_path.
                if files s memory_path = None then Inl (FileNotFoundError memory_path)
                else Inr memory_path)))) of
             Inl e \<Rightarrow> (Inl e, s)
           | Inr memory_path \<Rightarrow>
               (let s1 = s\<lparr>files := (files s)(memory_path := None)\<rparr> in
                case and_then (subscript index ''memories'') (\<lambda>mems.
                     and_then (delitem mems memory_id) (\<lambda>mems'.
                     setitem index ''memories'' mems')) of
                  Inl e \<Rightarrow> (Inl e, s1)
                | Inr index' \<Rightarrow> cleanup_loop now ids index' s1 (cleaned + 1))))"

text \<open>
  \<^verbatim>\<open>cleanup_expired\<close>: the index is written only when something was removed.
\<close>

definition cleanup_expired :: "string \<Rightarrow> store \<Rightarrow> (error + nat) \<times> store" where
  "cleanup_expired now s =
     (case and_then (json_load (index_file s) index_path) (\<lambda>index.
           and_then (subscript index ''memories'') (\<lambda>mems.
           and_then (keys mems) (\<lambda>ids. Inr (index, ids)))) of
        Inl e \<Rightarrow> (Inl e, s)
      | Inr (index, ids) \<Rightarrow>
          (case cleanup_loop now ids index s 0 of
             (Inl e, s1) \<Rightarrow> (Inl e, s1)
           | (Inr (index1, cleaned), s1) \<Rightarrow>
               if cleaned > 0 then
                 (case set_in index1 ''stats'' ''last_cleanup'' (JStr now) of
                    Inl e \<Rightarrow> (Inl e, s1)
                  | Inr index2 \<Rightarrow> (Inr cleaned, s1\<lparr>index_file := Some (Text index2)\<rparr>))
               else (Inr cleaned, s1)))"


text \<open>
  What the index file records for an id (\<^verbatim>\<open>index["memories"][memory_id]\<close>), and the
  path of its record file.
\<close>

definition index_lookup :: "store \<Rightarrow> string \<Rightarrow> error + json" where
  "index_lookup s memory_id =
     and_then (json_load (index_file s) index_path) (\<lambda>index.
     and_then (subscript index ''memories'') (\<lambda>mems. subscript mems memory_id))"

definition record_file :: "store \<Rightarrow> string \<Rightarrow> error + string" where
  "record_file s memory_id =
     and_then (index_lookup s memory_id) (\<lambda>entry.
     and_then (subscript entry ''path'') as_path)"

text \<open>The record of an id passes the expiry test of \<^verbatim>\<open>cleanup_expired\<close>.\<close>

definition expired :: "string \<Rightarrow> store \<Rightarrow> string \<Rightarrow> bool" where
  "expired now s memory_id \<longleftrightarrow> and_then (get_memory s memory_id) (is_expired now) = Inr True"

text \<open>
  A sequence of \<^verbatim>\<open>update_memory\<close> calls on one id, one after the other, each with
  its own time, content and critique; it stops at the first call that raises.
\<close>

fun update_all ::
  "(json \<Rightarrow> bool) \<Rightarrow> string \<Rightarrow> (string \<times> json \<times> json) list \<Rightarrow> store
     \<Rightarrow> (error + bool) \<times> store" where
  "update_all valid memory_id [] s = (Inr True, s)"
| "update_all valid memory_id ((now, content, critique) # calls) s =
     (case update_memory valid now memory_id content critique s of
        (Inl e, s1) \<Rightarrow> (Inl e, s1)
      | (Inr _, s1) \<Rightarrow> update_all valid memory_id calls s1)"

subsection \<open>CascadeCore: hashed save and load with per-name backups\<close>

text \<open>
  The data files \<^verbatim>\<open>data/<name>.json\<close>, the backup directories \<^verbatim>\<open>backups/<name>/\<close>
  (\<open>None\<close>: no such directory; otherwise its entries, file name and contents, in the
  order in which \<^verbatim>\<open>os.listdir\<close> gives them) and the lines written to the logger.
\<close>

datatype log_entry = LogWarning string | LogError string error

record core =
  data :: "string \<Rightarrow> contents option"
  backups :: "string \<Rightarrow> (string \<times> contents) list option"
  log :: "log_entry list"

definition endswith :: "string \<Rightarrow> string \<Rightarrow> bool" where
  "endswith s suffix \<longleftrightarrow>
     length suffix \<le> length s \<and> drop (length s - length suffix) s = suffix"

definition startswith :: "string \<Rightarrow> string \<Rightarrow> bool" where
  "startswith s prefix \<longleftrightarrow> take (length prefix) s = prefix"

text \<open>\<^verbatim>\<open>sorted([f for f in os.listdir(backup_dir) if f.endswith('.json')])\<close>.\<close>

definition json_names :: "(string \<times> contents) list \<Rightarrow> string list" where
  "json_names dir = sort (filter (\<lambda>f. endswith f ''.json'') (map fst dir))"

text \<open>
  \<^verbatim>\<open>for old in ...: os.remove(...)\<close>, with no handler around it: the first file that the
  file system refuses to delete (a name in \<open>undeletable\<close>) ends the loop with its
  exception.
\<close>

fun remove_each ::
  "string set \<Rightarrow> string list \<Rightarrow> (string \<times> contents) list
     \<Rightarrow> error option \<times> (string \<times> contents) list" where
  "remove_each undeletable [] dir = (None, dir)"
| "remove_each undeletable (old # olds) dir =
     (if old \<in> undeletable then (Some (OSError old), dir)
      else remove_each undeletable olds (AList.delete old dir))"

text \<open>
  \<^verbatim>\<open>_quick_backup\<close>: nothing to do without a data file; otherwise the data file is
  copied to \<^verbatim>\<open><timestamp>.json\<close> (over a backup of the same second, if any) and all
  but the last three names in sorted order are removed.
\<close>

definition quick_backup :: "string set \<Rightarrow> string \<Rightarrow> string \<Rightarrow> core \<Rightarrow> error option \<times> core" where
  "quick_backup undeletable timestamp name s =
     (case data s name of
        None \<Rightarrow> (None, s)
      | Some src \<Rightarrow>
          (let dir = (case backups s name of None \<Rightarrow> [] | Some d \<Rightarrow> d);
               dir1 = AList.update (timestamp @ ''.json'') src dir;
               names = json_names dir1;
               (r, dir2) = remove_each undeletable (take (length names - 3) names) dir1
           in (r, s\<lparr>backups := (backups s)(name \<mapsto> dir2)\<rparr>)))"

text \<open>
  \<^verbatim>\<open>_restore_backup\<close>: the last name in sorted order is copied over the data file.
  (The last case cannot arise: the name was listed from the directory.)
\<close>

definition restore_backup :: "string \<Rightarrow> core \<Rightarrow> bool \<times> core" where
  "restore_backup name s =
     (case backups s name of
        None \<Rightarrow> (False, s)
      | Some dir \<Rightarrow>
          (let names = json_names dir in
           if names = [] then (False, s)
           else (case map_of dir (last names) of
                   Some c \<Rightarrow> (True, s\<lparr>data := (data s)(name \<mapsto> c)\<rparr>)
                 | None \<Rightarrow> (False, s))))"

text \<open>
  \<^verbatim>\<open>save_memory\<close>: any exception is logged and turned into the result \<^verbatim>\<open>False\<close>.
\<close>

definition save_memory ::
  "(string \<Rightarrow> string) \<Rightarrow> string set \<Rightarrow> string \<Rightarrow> string \<Rightarrow> string \<Rightarrow> json \<Rightarrow> core
     \<Rightarrow> bool \<times> core" where
  "save_memory sha256_hex undeletable now timestamp name content s =
     (case quick_backup undeletable timestamp name s of
        (Some e, s1) \<Rightarrow>
          (False, s1\<lparr>log := log s1 @ [LogError (''Failed to save memory '' @ name) e]\<rparr>)
      | (None, s1) \<Rightarrow>
          (True, s1\<lparr>data := (data s1)(name \<mapsto> Text (JObj
             [(''content'', content),
              (''updated_at'', JStr now),
              (''hash'', JStr (hash_dict sha256_hex content))]))\<rparr>))"

text \<open>
  \<^verbatim>\<open>data = json.load(f)\<close>, then \<^verbatim>\<open>data['content']\<close> and \<^verbatim>\<open>data['hash']\<close>, in the
  order in which the comparison of \<^verbatim>\<open>load_memory\<close> evaluates them.
\<close>

definition content_and_hash :: "contents \<Rightarrow> error + json \<times> json" where
  "content_and_hash f =
     and_then (json_load (Some f) []) (\<lambda>d.
     and_then (subscript d ''content'') (\<lambda>content.
     and_then (subscript d ''hash'') (\<lambda>h. Inr (content, h))))"

text \<open>
  A call either returns or waits for a lock without end.
\<close>

datatype 'a outcome = Returns 'a | Blocks

text \<open>
  \<^verbatim>\<open>_get_lock\<close> builds a new \<^verbatim>\<open>FileLock\<close> object at every call. \<^verbatim>\<open>FileLock\<close>
  belongs to the filelock package, not to this repository; a lock file that the caller
  already holds through another \<^verbatim>\<open>FileLock\<close> object is never granted to it. What the
  package does instead depends on its release: the 3.x releases poll the lock file
  without end (no timeout is given, so the default \<open>-1\<close> applies), the 4.x releases
  raise \<^verbatim>\<open>RuntimeError\<close> at once.
\<close>

datatype nested_lock = Waits | Raises

text \<open>
  \<^verbatim>\<open>load_memory\<close>. The retry after a restore is a recursive call made inside the
  \<^verbatim>\<open>with self._get_lock(name)\<close> block, so the nested call asks for the lock file of
  \<open>name\<close> while the outer call holds it. \<open>held\<close> are the names locked by the calls
  around this one (empty for a call from outside). The \<^verbatim>\<open>RuntimeError\<close> of the nested
  acquire is caught like every other exception.
\<close>

function load_memory ::
  "(string \<Rightarrow> string) \<Rightarrow> nested_lock \<Rightarrow> string set \<Rightarrow> string \<Rightarrow> core
     \<Rightarrow> json option outcome \<times> core" where
  "load_memory sha256_hex nested held name s =
     (case data s name of
        None \<Rightarrow> (Returns None, s)
      | Some f \<Rightarrow>
          if name \<in> held then
            (case nested of
               Waits \<Rightarrow> (Blocks, s)
             | Raises \<Rightarrow>
                 (Returns None,
                  s\<lparr>log := log s @
                     [LogError (''Failed to load memory '' @ name) RuntimeError]\<rparr>))
          else
            (case content_and_hash f of
               Inl e \<Rightarrow>
                 (Returns None,
                  s\<lparr>log := log s @ [LogError (''Failed to load memory '' @ name) e]\<rparr>)
             | Inr (content, h) \<Rightarrow>
                 if JStr (hash_dict sha256_hex content) \<noteq> h then
                   load_memory sha256_hex nested (insert name held) name
                     (snd (restore_backup name
                        (s\<lparr>log := log s @
                           [LogWarning (''Memory '' @ name @ '' failed hash validation'')]\<rparr>)))
                 else (Returns (Some content), s)))"
  by pat_completeness auto
termination
  by (relation "measure (\<lambda>(sha256_hex, nested, held, name, s). if name \<in> held then 0 else 1)")
    auto

declare load_memory.simps [simp del]

text \<open>The stored file of a name holds a content and a recorded hash that differ.\<close>

definition mismatch :: "(string \<Rightarrow> string) \<Rightarrow> contents \<Rightarrow> bool" where
  "mismatch sha256_hex f \<longleftrightarrow>
     (case content_and_hash f of
        Inl e \<Rightarrow> False
      | Inr (content, h) \<Rightarrow> JStr (hash_dict sha256_hex content) \<noteq> h)"

text \<open>The stored file of a name holds the content \<open>c\<close> and the hash of \<open>c\<close>.\<close>

definition holds_valid :: "(string \<Rightarrow> string) \<Rightarrow> contents \<Rightarrow> json \<Rightarrow> bool" where
  "holds_valid sha256_hex f c \<longleftrightarrow>
     content_and_hash f = Inr (c, JStr (hash_dict sha256_hex c))"

subsection \<open>CascadeSafety: safety records and pruning of whole-store backups\<close>

text \<open>
  A safety record as \<^verbatim>\<open>record_file_state\<close> writes it. The modification time is the
  float \<^verbatim>\<open>st_mtime\<close>, which is only ever compared for equality.
\<close>

record safety_record =
  rec_path :: string
  rec_hash :: string
  rec_mtime :: rat
  recorded_at :: string

text \<open>
  The tracked files (bytes and modification time, by path), the safety records (by the
  file name of the record under \<^verbatim>\<open>safety/\<close>) and the entries of the backup directory
  (name, and whether it is a directory).
\<close>

record safety =
  tracked :: "string \<Rightarrow> (string \<times> rat) option"
  safety_records :: "string \<Rightarrow> safety_record option"
  backup_dir :: "(string \<times> bool) list"







text \<open>\<^verbatim>\<open>xs[k:]\<close> for a Python integer \<open>k\<close>: a negative \<open>k\<close> counts from the end.\<close>

definition slice_from :: "int \<Rightarrow> 'a list \<Rightarrow> 'a list" where
  "slice_from k xs = (if 0 \<le> k then drop (nat k) xs else drop (length xs - nat (- k)) xs)"

text \<open>The backups that \<^verbatim>\<open>cleanup_old_backups\<close> lists, newest name first.\<close>

definition snapshots :: "(string \<times> bool) list \<Rightarrow> string list" where
  "snapshots entries =
     rev (sort (map fst (filter (\<lambda>(item, is_dir). is_dir \<and> startswith item ''cascade_backup_'')
       entries)))"

text \<open>
  The removal loop of \<^verbatim>\<open>cleanup_old_backups\<close>: each \<^verbatim>\<open>shutil.rmtree\<close> has its own
  handler, so a backup that cannot be removed is skipped and the loop goes on.
\<close>

fun rmtree_each :: "string set \<Rightarrow> string list \<Rightarrow> (string \<times> bool) list \<Rightarrow> (string \<times> bool) list" where
  "rmtree_each undeletable [] entries = entries"
| "rmtree_each undeletable (backup # rest) entries =
     (if backup \<in> undeletable then rmtree_each undeletable rest entries
      else rmtree_each undeletable rest (filter (\<lambda>e. fst e \<noteq> backup) entries))"

definition cleanup_old_backups :: "string set \<Rightarrow> int \<Rightarrow> safety \<Rightarrow> safety" where
  "cleanup_old_backups undeletable keep_last s =
     s\<lparr>backup_dir :=
         rmtree_each undeletable (slice_from keep_last (snapshots (backup_dir s))) (backup_dir s)\<rparr>"

subsection \<open>Acquiring a lock\<close>

text \<open>
  \<^verbatim>\<open>FileLock.acquire\<close> of the filelock package polls the lock file: it returns once no
  other holder has it, raises \<^verbatim>\<open>Timeout\<close> once a non-negative \<open>timeout\<close> has passed,
  and sleeps and polls again otherwise. \<open>held_at t\<close> tells whether another holder has
  the lock file at the \<open>t\<close>-th poll; time is counted in polls. A call that polls for
  ever has no value: \<open>None\<close>.
\<close>

datatype lock_error = Timeout

partial_function (option) file_lock_acquire ::
  "int \<Rightarrow> (nat \<Rightarrow> bool) \<Rightarrow> nat \<Rightarrow> (lock_error + nat) option" where
  "file_lock_acquire timeout held_at t =
     (if \<not> held_at t then Some (Inr t)
      else if 0 \<le> timeout \<and> timeout < int t then Some (Inl Timeout)
      else file_lock_acquire timeout held_at (Suc t))"

text \<open>
  \<^verbatim>\<open>CascadeMemory._acquire_lock\<close>: \<^verbatim>\<open>lock.acquire()\<close> is called with no timeout, and
  \<^verbatim>\<open>FileLock(lock_file)\<close> is built with none, so the package's default \<open>-1\<close> applies.
\<close>

definition acquire_lock :: "(nat \<Rightarrow> bool) \<Rightarrow> (lock_error + nat) option" where
  "acquire_lock held_at = file_lock_acquire (- 1) held_at 0"

subsection \<open>A helper for the serialisation proof\<close>

text \<open>The items of a dict with their values already serialised.\<close>

definition rendered :: "(string \<times> json) list \<Rightarrow> (string \<times> string) list" where
  "rendered kvs = map (\<lambda>kv. (fst kv, dumps (snd kv))) kvs"

subsection \<open>Example states\<close>

text \<open>
  Small concrete states on which the properties below are run: an empty store, a store
  with one record that carries an expiry time, data files with a wrong or a right
  recorded hash, with backups, and two tracked files with the same file name.
\<close>

definition store0 :: store where
  "store0 = \<lparr>index_file = Some (Text (JObj [(''memories'', JObj []), (''stats'', JObj [])])),
             files = (\<lambda>p. None)\<rparr>"

definition store_exp :: store where
  "store_exp =
     \<lparr>index_file = Some (Text (JObj
        [(''memories'', JObj [(''a'', JObj [(''path'', JStr ''data/memories/a.json''),
                                            (''type'', JStr ''note''),
                                            (''version'', JInt 1),
                                            (''last_updated'', JStr ''t1'')])]),
         (''stats'', JObj [])])),
      files = (\<lambda>p. None)(''data/memories/a.json'' \<mapsto> Text (JObj
        [(''id'', JStr ''a''), (''type'', JStr ''note''), (''content'', JInt 7),
         (''created_at'', JStr ''t1''), (''updated_at'', JStr ''t1''), (''version'', JInt 1),
         (''critique'', default_critique), (''expires_at'', JStr ''t5'')]))\<rparr>"

definition store_corrupt :: store where
  "store_corrupt = store_exp\<lparr>files := (\<lambda>p. None)(''data/memories/a.json'' \<mapsto> Corrupt)\<rparr>"

definition saved :: "json \<Rightarrow> string \<Rightarrow> contents" where
  "saved content h = Text (JObj [(''content'', content), (''updated_at'', JStr ''t0''), (''hash'', JStr h)])"

definition core_backed :: core where
  "core_backed =
     \<lparr>data = (\<lambda>n. None)(''m'' \<mapsto> saved (JInt 2) ''bad''),
      backups = (\<lambda>n. None)(''m'' \<mapsto>
        [(''20240101_000002.json'', saved (JInt 1) ''1''),
         (''20240101_000001.json'', saved (JInt 0) ''0'')]),
      log = []\<rparr>"

definition core_corrupt :: core where
  "core_corrupt = \<lparr>data = (\<lambda>n. None)(''m'' \<mapsto> Corrupt), backups = (\<lambda>n. None), log = []\<rparr>"

definition core_full :: core where
  "core_full =
     \<lparr>data = (\<lambda>n. None)(''m'' \<mapsto> saved (JInt 5) ''5''),
      backups = (\<lambda>n. None)(''m'' \<mapsto>
        [(''20240101_000001.json'', saved (JInt 1) ''1''),
         (''20240101_000002.json'', saved (JInt 2) ''2''),
         (''20240101_000003.json'', saved (JInt 3) ''3''),
         (''20240101_000004.json'', saved (JInt 4) ''4'')]),
      log = []\<rparr>"


section \<open>Properties\<close>

subsection \<open>Inversion of the steps that may raise\<close>

lemma and_then_simps [simp]:
  "and_then (Inl e) f = Inl e"
  "and_then (Inr x) f = f x"
  by (simp_all add: and_then_def)

lemma and_then_Inr_iff: "and_then m f = Inr y \<longleftrightarrow> (\<exists>x. m = Inr x \<and> f x = Inr y)"
  by (cases m) simp_all

lemma subscript_Inr_iff:
  "subscript j k = Inr v \<longleftrightarrow> (\<exists>kvs. j = JObj kvs \<and> map_of kvs k = Some v)"
  by (cases j) (auto split: option.splits)

lemma setitem_Inr_iff:
  "setitem j k v = Inr j' \<longleftrightarrow> (\<exists>kvs. j = JObj kvs \<and> j' = JObj (AList.update k v kvs))"
  by (cases j) auto

lemma delitem_Inr_iff:
  "delitem j k = Inr j' \<longleftrightarrow>
     (\<exists>kvs. j = JObj kvs \<and> k \<in> fst ` set kvs \<and> j' = JObj (AList.delete k kvs))"
  by (cases j) auto

lemma json_load_Inr_iff: "json_load f p = Inr j \<longleftrightarrow> f = Some (Text j)"
  by (cases "(f, p)" rule: json_load.cases) auto

lemma as_path_Inr_iff: "as_path j = Inr p \<longleftrightarrow> j = JStr p"
  by (cases j) auto

lemma keys_Inr_iff: "keys j = Inr ks \<longleftrightarrow> (\<exists>kvs. j = JObj kvs \<and> ks = map fst kvs)"
  by (cases j) auto

lemma plus_one_Inr_iff:
  "plus_one j = Inr j' \<longleftrightarrow>
     (\<exists>i. j = JInt i \<and> j' = JInt (i + 1)) \<or> (\<exists>b. j = JBool b \<and> j' = JInt (of_bool b + 1))"
  by (cases j) auto

lemma validate_memory_Inr_iff: "validate_memory valid m = Inr b \<longleftrightarrow> valid m \<and> b"
  by (auto simp: validate_memory_def)

lemmas inversions =
  and_then_Inr_iff subscript_Inr_iff setitem_Inr_iff delitem_Inr_iff json_load_Inr_iff
  as_path_Inr_iff keys_Inr_iff validate_memory_Inr_iff

lemma set_in_Inr_iff:
  "set_in d k1 k2 v = Inr d' \<longleftrightarrow>
     (\<exists>kvs inner. d = JObj kvs \<and> map_of kvs k1 = Some (JObj inner) \<and>
        d' = JObj (AList.update k1 (JObj (AList.update k2 v inner)) kvs))"
  by (auto simp: set_in_def inversions)

lemma set_in3_Inr_iff:
  "set_in3 d k1 k2 k3 v = Inr d' \<longleftrightarrow>
     (\<exists>kvs mid inner. d = JObj kvs \<and> map_of kvs k1 = Some (JObj mid) \<and>
        map_of mid k2 = Some (JObj inner) \<and>
        d' = JObj (AList.update k1 (JObj (AList.update k2 (JObj (AList.update k3 v inner)) mid)) kvs))"
  by (auto simp: set_in3_def set_in_Inr_iff inversions)

lemma map_of_Some_fst: "map_of kvs k = Some v \<Longrightarrow> k \<in> fst ` set kvs"
  by (force dest: map_of_SomeD)

lemma pair_fst_snd: "fst p = a \<Longrightarrow> p = (a, snd p)"
  by (cases p) simp

subsection \<open>The content digest does not depend on key order\<close>

lemma insort_key_rendered:
  "insort_key fst (fst x, d (snd x)) (map (\<lambda>kv. (fst kv, d (snd kv))) xs) =
   map (\<lambda>kv. (fst kv, d (snd kv))) (insort_key fst x xs)"
  by (induction xs) simp_all

lemma sort_key_rendered: "sort_key fst (rendered kvs) = rendered (sort_key fst kvs)"
  unfolding rendered_def by (induction kvs) (simp_all add: insort_key_rendered)

lemma dumps_obj_rendered:
  "dumps (JObj kvs) =
   ''{'' @ join '', ''
      (map (\<lambda>ks. encode_str (fst ks) @ '': '' @ snd ks) (sort_key fst (rendered kvs))) @ ''}''"
  by (simp add: sort_key_rendered) (simp add: rendered_def comp_def)

lemma map_fst_rendered: "map fst (rendered kvs) = map fst kvs"
  by (simp add: rendered_def comp_def)

lemma map_of_rendered: "map_of (rendered kvs) k = map_option dumps (map_of kvs k)"
  unfolding rendered_def by (induction kvs) auto

lemma sort_key_unique:
  fixes xs ys :: "(string \<times> 'b) list"
  assumes dx: "distinct (map fst xs)" and dy: "distinct (map fst ys)"
    and m: "map_of xs = map_of ys"
  shows "sort_key fst xs = sort_key fst ys"
proof -
  have "set xs = set ys"
    using dx dy m by (simp add: map_of_inject_set)
  moreover have "distinct xs" "distinct ys"
    using dx dy by (simp_all add: distinct_map)
  ultimately have "mset xs = mset ys"
    by (simp add: set_eq_iff_mset_eq_distinct)
  moreover have "inj_on fst (set xs)"
    using dx by (simp add: distinct_map)
  ultimately show ?thesis
    by (intro sort_key_inj_key_eq) simp_all
qed

lemma reordered_dumps: "reordered a b \<Longrightarrow> dumps a = dumps b"
proof (induction rule: reordered.induct)
  case (r_list xs ys)
  then have "map dumps xs = map dumps ys"
    by (induction rule: list_all2_induct) simp_all
  then show ?case by simp
next
  case (r_obj kvs kvs')
  have "map_of (rendered kvs) k = map_of (rendered kvs') k" for k
  proof (cases "k \<in> set (map fst kvs)")
    case True
    with r_obj.IH show ?thesis by (auto simp: map_of_rendered)
  next
    case False
    with r_obj.hyps(3) have "map_of kvs k = None" "map_of kvs' k = None"
      by (simp_all add: map_of_eq_None_iff)
    then show ?thesis by (simp add: map_of_rendered)
  qed
  then have "map_of (rendered kvs) = map_of (rendered kvs')" by (rule ext)
  then have "sort_key fst (rendered kvs) = sort_key fst (rendered kvs')"
    using r_obj.hyps(1,2) by (intro sort_key_unique) (simp_all add: map_fst_rendered)
  then show ?case by (simp only: dumps_obj_rendered)
qed simp_all

text \<open>
  \<^bold>\<open>Claim C7.\<close> Two structured values that are the same mappings and differ only in the order in which
  the keys of their dicts were inserted, at any depth, have the same digest:
  \<^verbatim>\<open>_hash_dict\<close> hashes \<^verbatim>\<open>json.dumps(data, sort_keys=True)\<close>, which writes the items
  of every dict in the order of their keys. The digest is a function of the value alone
  (and of SHA-256, here \<open>sha256_hex\<close>), so it is the same at every call.
\<close>

theorem hash_dict_key_order:
  "reordered a b \<Longrightarrow> hash_dict sha256_hex a = hash_dict sha256_hex b"
  by (simp add: hash_dict_def reordered_dumps)

text \<open>
  The theorem at two dicts with the same items in two orders, one of them nested; the
  hash is the identity here, so the equation compares the serialisations themselves.
\<close>

theorem hash_dict_key_order_witness:
  "reordered (JObj [(''b'', JInt 1), (''a'', JObj [(''y'', JNull), (''x'', JBool True)])])
             (JObj [(''a'', JObj [(''x'', JBool True), (''y'', JNull)]), (''b'', JInt 1)]) \<and>
   hash_dict (\<lambda>b. b) (JObj [(''b'', JInt 1), (''a'', JObj [(''y'', JNull), (''x'', JBool True)])]) =
   hash_dict (\<lambda>b. b) (JObj [(''a'', JObj [(''x'', JBool True), (''y'', JNull)]), (''b'', JInt 1)])"
proof -
  have inner: "reordered (JObj [(''y'', JNull), (''x'', JBool True)])
                         (JObj [(''x'', JBool True), (''y'', JNull)])"
    by (rule r_obj) (auto intro: reordered.intros)
  have r: "reordered (JObj [(''b'', JInt 1), (''a'', JObj [(''y'', JNull), (''x'', JBool True)])])
             (JObj [(''a'', JObj [(''x'', JBool True), (''y'', JNull)]), (''b'', JInt 1)])"
    by (rule r_obj) (auto intro: reordered.intros inner)
  from r hash_dict_key_order [OF r] show ?thesis by blast
qed

subsection \<open>Create, get and update\<close>

lemma get_memory_Inr_iff:
  "get_memory s memory_id = Inr memory \<longleftrightarrow>
     (\<exists>ikvs mkvs ekvs p. index_file s = Some (Text (JObj ikvs)) \<and>
        map_of ikvs ''memories'' = Some (JObj mkvs) \<and>
        map_of mkvs memory_id = Some (JObj ekvs) \<and>
        map_of ekvs ''path'' = Some (JStr p) \<and>
        files s p = Some (Text memory))"
  by (auto simp: get_memory_def inversions map_of_Some_fst split: if_splits)

lemma create_memory_Inr:
  assumes "create_memory valid memory_id now memory_type content critique s = (Inr i, s')"
  shows "\<exists>ikvs mkvs. i = memory_id \<and>
      valid (new_memory memory_id now memory_type content critique) \<and>
      index_file s = Some (Text (JObj ikvs)) \<and>
      map_of ikvs ''memories'' = Some (JObj mkvs) \<and>
      s' = s\<lparr>files := (files s)(record_path memory_id \<mapsto>
                  Text (new_memory memory_id now memory_type content critique)),
              index_file := Some (Text (JObj (AList.update ''memories''
                  (JObj (AList.update memory_id (index_entry memory_id now memory_type) mkvs))
                  ikvs)))\<rparr>"
  using assms
  by (auto simp: create_memory_def Let_def inversions set_in_Inr_iff split: sum.splits)

lemma get_after_create_aux:
  assumes "create_memory valid memory_id now memory_type content critique s = (Inr i, s')"
  shows "get_memory s' i = Inr (new_memory memory_id now memory_type content critique)"
  using create_memory_Inr [OF assms]
  by (auto simp: get_memory_Inr_iff update_conv' index_entry_def)

lemma update_memory_Inr:
  assumes "update_memory valid now memory_id content critique s = (Inr b, s')"
  shows "\<exists>ikvs mkvs ekvs p rkvs v v'.
      index_file s = Some (Text (JObj ikvs)) \<and>
      map_of ikvs ''memories'' = Some (JObj mkvs) \<and>
      map_of mkvs memory_id = Some (JObj ekvs) \<and>
      map_of ekvs ''path'' = Some (JStr p) \<and>
      files s p = Some (Text (JObj rkvs)) \<and>
      map_of (AList.update ''updated_at'' (JStr now) (AList.update ''content'' content rkvs))
        ''version'' = Some v \<and>
      plus_one v = Inr v' \<and>
      s' = s\<lparr>files := (files s)(p \<mapsto> Text (JObj
                ((if truthy critique then AList.update ''critique'' critique else id)
                  (AList.update ''version'' v'
                    (AList.update ''updated_at'' (JStr now)
                      (AList.update ''content'' content rkvs)))))),
              index_file := Some (Text (JObj (AList.update ''memories''
                (JObj (AList.update memory_id
                  (JObj (AList.update ''last_updated'' (JStr now)
                    (AList.update ''version'' v' ekvs))) mkvs)) ikvs)))\<rparr>"
  using assms
  by (auto simp: update_memory_def updated_record_def updated_index_def Let_def inversions
      set_in3_Inr_iff update_conv' split: sum.splits if_splits prod.splits)



lemma update_memory_step:
  assumes g: "get_memory s memory_id = Inr memory"
    and u: "update_memory valid now memory_id content critique s = (Inr b, s')"
  shows "\<exists>rkvs v v'. memory = JObj rkvs \<and> map_of rkvs ''version'' = Some v \<and> plus_one v = Inr v' \<and>
           get_memory s' memory_id = Inr (JObj
             ((if truthy critique then AList.update ''critique'' critique else id)
                (AList.update ''version'' v'
                  (AList.update ''updated_at'' (JStr now)
                    (AList.update ''content'' content rkvs)))))"
  using update_memory_Inr [OF u] g
  by (auto simp: get_memory_Inr_iff update_conv')

lemma update_memory_version:
  assumes g: "get_memory s memory_id = Inr memory"
    and v: "subscript memory ''version'' = Inr (JInt v)"
    and u: "update_memory valid now memory_id content critique s = (Inr b, s')"
  shows "\<exists>memory'. get_memory s' memory_id = Inr memory' \<and>
           subscript memory' ''version'' = Inr (JInt (v + 1)) \<and>
           subscript memory' ''updated_at'' = Inr (JStr now) \<and>
           subscript memory' ''content'' = Inr content"
  using update_memory_step [OF g u] v
  by (auto simp: update_conv')

lemma update_all_version:
  assumes "get_memory s memory_id = Inr memory"
    and "subscript memory ''version'' = Inr (JInt v)"
    and "update_all valid memory_id calls s = (Inr b, s')"
  shows "\<exists>memory'. get_memory s' memory_id = Inr memory' \<and>
           subscript memory' ''version'' = Inr (JInt (v + int (length calls)))"
  using assms
proof (induction calls arbitrary: s memory v)
  case Nil
  then show ?case by simp
next
  case (Cons c calls)
  obtain now content critique where c: "c = (now, content, critique)"
    by (cases c)
  from Cons.prems(3) c obtain b1 s1 where
    u: "update_memory valid now memory_id content critique s = (Inr b1, s1)" and
    r: "update_all valid memory_id calls s1 = (Inr b, s')"
    by (auto split: prod.splits sum.splits)
  from update_memory_version [OF Cons.prems(1,2) u] obtain m1 where
    "get_memory s1 memory_id = Inr m1" "subscript m1 ''version'' = Inr (JInt (v + 1))"
    by blast
  from Cons.IH [OF this r] show ?case
    by (simp add: algebra_simps)
qed

lemma update_memory_Inl:
  assumes "update_memory valid now memory_id content critique s = (Inl e, s')"
  shows "s' = s"
  using assms
  by (auto simp: update_memory_def updated_record_def updated_index_def Let_def inversions
      set_in3_def set_in_def update_conv' map_of_Some_fst
      split: sum.splits if_splits prod.splits)

text \<open>
  \<^bold>\<open>Claim C2.\<close> A successful \<^verbatim>\<open>update_memory\<close> on a record stored at version \<open>v\<close> leaves it stored
  at version \<open>v + 1\<close>, with \<^verbatim>\<open>updated_at\<close> set to the time of the call and the new
  content; hence \<open>n\<close> successful updates in sequence of a record just created (version 1)
  leave it at version \<open>n + 1\<close>. An update of an id that the index does not hold raises
  (the \<^verbatim>\<open>ValueError\<close> "Memory ... not found") and leaves the store as it was; so does
  every update that raises.
\<close>

theorem update_memory_versions:
  "(get_memory s memory_id = Inr memory \<and> subscript memory ''version'' = Inr (JInt v) \<and>
    update_memory valid now memory_id content critique s = (Inr True, s') \<longrightarrow>
      (\<exists>memory'. get_memory s' memory_id = Inr memory' \<and>
         subscript memory' ''version'' = Inr (JInt (v + 1)) \<and>
         subscript memory' ''updated_at'' = Inr (JStr now) \<and>
         subscript memory' ''content'' = Inr content)) \<and>
   (create_memory valid i t0 ty c0 q0 s0 = (Inr i, s1) \<and>
    update_all valid i calls s1 = (Inr True, s2) \<longrightarrow>
      (\<exists>m. get_memory s2 i = Inr m \<and>
         subscript m ''version'' = Inr (JInt (int (length calls) + 1)))) \<and>
   (index_file s = Some (Text index) \<and> subscript index ''memories'' = Inr mems \<and>
    contains mems memory_id = Inr False \<longrightarrow>
      update_memory valid now memory_id content critique s =
        (Inl (ValueError (''Memory '' @ memory_id @ '' not found'')), s)) \<and>
   (update_memory valid now memory_id content critique s = (Inl e, s3) \<longrightarrow> s3 = s)"
proof -
  have 1: "\<exists>memory'. get_memory s' memory_id = Inr memory' \<and>
         subscript memory' ''version'' = Inr (JInt (v + 1)) \<and>
         subscript memory' ''updated_at'' = Inr (JStr now) \<and>
         subscript memory' ''content'' = Inr content"
    if "get_memory s memory_id = Inr memory" "subscript memory ''version'' = Inr (JInt v)"
      "update_memory valid now memory_id content critique s = (Inr True, s')"
    using update_memory_version [OF that] .
  have 2: "\<exists>m. get_memory s2 i = Inr m \<and>
         subscript m ''version'' = Inr (JInt (int (length calls) + 1))"
    if c: "create_memory valid i t0 ty c0 q0 s0 = (Inr i, s1)"
      and u: "update_all valid i calls s1 = (Inr True, s2)"
  proof -
    have g: "get_memory s1 i = Inr (new_memory i t0 ty c0 q0)"
      using get_after_create_aux [OF c] .
    have v: "subscript (new_memory i t0 ty c0 q0) ''version'' = Inr (JInt 1)"
      by (simp add: new_memory_def)
    from update_all_version [OF g v u] show ?thesis
      by (simp add: add.commute)
  qed
  have 3: "update_memory valid now memory_id content critique s =
        (Inl (ValueError (''Memory '' @ memory_id @ '' not found'')), s)"
    if "index_file s = Some (Text index)" "subscript index ''memories'' = Inr mems"
      "contains mems memory_id = Inr False"
    using that by (simp add: update_memory_def updated_record_def)
  have 4: "s3 = s" if "update_memory valid now memory_id content critique s = (Inl e, s3)"
    using update_memory_Inl [OF that] .
  from 1 2 3 4 show ?thesis by blast
qed

text \<open>
  The theorem on the empty store: a record is created, updated once (version 2), and,
  from the same start, twice (version 3); the update of an unknown id raises and changes
  nothing.
\<close>

theorem update_memory_versions_witness:
  "create_memory (\<lambda>m. True) ''a'' ''t0'' ''plan'' (JInt 1) JNull store0 =
     (Inr ''a'', snd (create_memory (\<lambda>m. True) ''a'' ''t0'' ''plan'' (JInt 1) JNull store0)) \<and>
   update_memory (\<lambda>m. True) ''t1'' ''a'' (JInt 2) JNull
       (snd (create_memory (\<lambda>m. True) ''a'' ''t0'' ''plan'' (JInt 1) JNull store0)) =
     (Inr True,
      snd (update_memory (\<lambda>m. True) ''t1'' ''a'' (JInt 2) JNull
        (snd (create_memory (\<lambda>m. True) ''a'' ''t0'' ''plan'' (JInt 1) JNull store0)))) \<and>
   (\<exists>m. get_memory
          (snd (update_memory (\<lambda>m. True) ''t1'' ''a'' (JInt 2) JNull
            (snd (create_memory (\<lambda>m. True) ''a'' ''t0'' ''plan'' (JInt 1) JNull store0)))) ''a''
        = Inr m \<and>
        subscript m ''version'' = Inr (JInt (1 + 1)) \<and>
        subscript m ''updated_at'' = Inr (JStr ''t1'')) \<and>
   update_all (\<lambda>m. True) ''a'' [(''t1'', JInt 2, JNull), (''t2'', JInt 3, JNull)]
       (snd (create_memory (\<lambda>m. True) ''a'' ''t0'' ''plan'' (JInt 1) JNull store0)) =
     (Inr True,
      snd (update_all (\<lambda>m. True) ''a'' [(''t1'', JInt 2, JNull), (''t2'', JInt 3, JNull)]
        (snd (create_memory (\<lambda>m. True) ''a'' ''t0'' ''plan'' (JInt 1) JNull store0)))) \<and>
   (\<exists>m. get_memory
          (snd (update_all (\<lambda>m. True) ''a'' [(''t1'', JInt 2, JNull), (''t2'', JInt 3, JNull)]
            (snd (create_memory (\<lambda>m. True) ''a'' ''t0'' ''plan'' (JInt 1) JNull store0)))) ''a''
        = Inr m \<and>
        subscript m ''version'' = Inr (JInt 3)) \<and>
   update_memory (\<lambda>m. True) ''t1'' ''zz'' (JInt 2) JNull store0 =
     (Inl (ValueError ''Memory zz not found''), store0)"
proof -
  let ?s1 = "snd (create_memory (\<lambda>m. True) ''a'' ''t0'' ''plan'' (JInt 1) JNull store0)"
  let ?calls = "[(''t1'', JInt 2, JNull), (''t2'', JInt 3, JNull)]"
  let ?s2 = "snd (update_all (\<lambda>m. True) ''a'' ?calls ?s1)"
  let ?s3 = "snd (update_memory (\<lambda>m. True) ''t1'' ''a'' (JInt 2) JNull ?s1)"
  let ?m1 = "new_memory ''a'' ''t0'' ''plan'' (JInt 1) JNull"
  have c: "create_memory (\<lambda>m. True) ''a'' ''t0'' ''plan'' (JInt 1) JNull store0 = (Inr ''a'', ?s1)"
    by (rule pair_fst_snd) code_simp
  have u: "update_all (\<lambda>m. True) ''a'' ?calls ?s1 = (Inr True, ?s2)"
    by (rule pair_fst_snd) code_simp
  have u1: "update_memory (\<lambda>m. True) ''t1'' ''a'' (JInt 2) JNull ?s1 = (Inr True, ?s3)"
    by (rule pair_fst_snd) code_simp
  have g: "get_memory ?s1 ''a'' = Inr ?m1"
    by code_simp
  have v: "subscript ?m1 ''version'' = Inr (JInt 1)"
    by (simp add: new_memory_def)
  have i: "index_file store0 = Some (Text (JObj [(''memories'', JObj []), (''stats'', JObj [])]))"
    by (simp add: store0_def)
  have m: "subscript (JObj [(''memories'', JObj []), (''stats'', JObj [])]) ''memories'' = Inr (JObj [])"
    by simp
  have n: "contains (JObj []) ''zz'' = Inr False"
    by simp
  note t = update_memory_versions [where s = store0 and memory_id = "''zz''" and
      valid = "\<lambda>m. True" and now = "''t1''" and content = "JInt 2" and critique = JNull and
      i = "''a''" and ?t0.0 = "''t0''" and ty = "''plan''" and ?c0.0 = "JInt 1" and ?q0.0 = JNull and
      ?s0.0 = store0 and ?s1.0 = ?s1 and calls = ?calls and ?s2.0 = ?s2 and
      index = "JObj [(''memories'', JObj []), (''stats'', JObj [])]" and mems = "JObj []"]
  note t' = update_memory_versions [where s = ?s1 and memory_id = "''a''" and memory = ?m1 and
      v = 1 and valid = "\<lambda>m. True" and now = "''t1''" and content = "JInt 2" and
      critique = JNull and s' = ?s3]
  from t' g v u1 have 1: "\<exists>m. get_memory ?s3 ''a'' = Inr m \<and>
        subscript m ''version'' = Inr (JInt (1 + 1)) \<and>
        subscript m ''updated_at'' = Inr (JStr ''t1'')"
    by blast
  from t c u have 2: "\<exists>m. get_memory ?s2 ''a'' = Inr m \<and> subscript m ''version'' = Inr (JInt 3)"
    by simp
  from t i m n have 3: "update_memory (\<lambda>m. True) ''t1'' ''zz'' (JInt 2) JNull store0 =
     (Inl (ValueError ''Memory zz not found''), store0)"
    by simp
  from c u1 1 u 2 3 show ?thesis
    by blast
qed

lemma record_file_Inr_iff:
  "record_file s i = Inr p \<longleftrightarrow>
     (\<exists>ikvs mkvs ekvs. index_file s = Some (Text (JObj ikvs)) \<and>
        map_of ikvs ''memories'' = Some (JObj mkvs) \<and>
        map_of mkvs i = Some (JObj ekvs) \<and>
        map_of ekvs ''path'' = Some (JStr p))"
  by (auto simp: record_file_def index_lookup_def inversions)

lemma get_memory_record_file:
  "get_memory s i = Inr m \<longleftrightarrow> (\<exists>p. record_file s i = Inr p \<and> files s p = Some (Text m))"
  by (auto simp: get_memory_Inr_iff record_file_Inr_iff)



subsection \<open>Expiry sweep\<close>

lemma get_memory_after_remove:
  assumes "and_then (get_memory (s\<lparr>files := (files s)(p := None)\<rparr>) i) f = Inr b"
  shows "and_then (get_memory s i) f = Inr b"
  using assms
  by (auto simp: and_then_Inr_iff get_memory_record_file record_file_Inr_iff split: if_splits)

lemma record_file_after_remove [simp]:
  "record_file (s\<lparr>files := fs\<rparr>) i = record_file s i"
  by (simp add: record_file_def index_lookup_def)

lemma restrict_UNIV [simp]: "AList.restrict UNIV al = al"
  by (induction al) auto

lemma cleanup_loop_Inr:
  assumes "cleanup_loop now ids (JObj ikvs) s cleaned = (Inr (index', cleaned'), s')"
    and "map_of ikvs ''memories'' = Some (JObj mkvs)"
    and "index_file s = Some (Text (JObj dikvs))"
    and "map_of dikvs ''memories'' = Some (JObj dkvs)"
    and "\<forall>i \<in> set ids. map_of mkvs i = map_of dkvs i"
    and "distinct ids"
  shows "(\<forall>i \<in> set ids. \<exists>b. and_then (get_memory s i) (is_expired now) = Inr b) \<and>
         cleaned' = cleaned + length (filter (expired now s) ids) \<and>
         index' = JObj (AList.update ''memories''
                    (JObj (AList.restrict (- set (filter (expired now s) ids)) mkvs)) ikvs) \<and>
         s' = s\<lparr>files := (\<lambda>p. if \<exists>i \<in> set (filter (expired now s) ids). record_file s i = Inr p
                                then None else files s p)\<rparr>"
  using assms
proof (induction ids arbitrary: ikvs mkvs s cleaned)
  case Nil
  then show ?case by (simp add: update_triv)
next
  case (Cons i ids)
  let ?v = "and_then (get_memory s i) (is_expired now)"
  from Cons.prems(1) obtain b where v: "?v = Inr b"
    by (cases ?v) simp_all
  have inv: "\<forall>j \<in> set ids. map_of mkvs j = map_of dkvs j"
    using Cons.prems(5) by simp
  have dist: "distinct ids" and notin: "i \<notin> set ids"
    using Cons.prems(6) by simp_all
  show ?case
  proof (cases b)
    case False
    with v Cons.prems(1) have
      rec: "cleanup_loop now ids (JObj ikvs) s cleaned = (Inr (index', cleaned'), s')"
      by simp
    have ne: "\<not> expired now s i"
      using v False by (simp add: expired_def)
    from Cons.IH [OF rec Cons.prems(2,3,4) inv dist] v ne show ?thesis
      by auto
  next
    case True
    with v have ex: "expired now s i"
      by (simp add: expired_def)
    from v obtain m where gm: "get_memory s i = Inr m"
      by (auto simp: and_then_Inr_iff)
    then obtain ekvs p where
      e: "map_of dkvs i = Some (JObj ekvs)" and p: "map_of ekvs ''path'' = Some (JStr p)" and
      f: "files s p = Some (Text m)"
      using Cons.prems(3,4) by (auto simp: get_memory_Inr_iff)
    have rf: "record_file s i = Inr p"
      using Cons.prems(3,4) e p by (auto simp: record_file_Inr_iff)
    have me: "map_of mkvs i = Some (JObj ekvs)"
      using Cons.prems(5) e by simp
    let ?s1 = "s\<lparr>files := (files s)(p := None)\<rparr>"
    let ?ikvs1 = "AList.update ''memories'' (JObj (AList.delete i mkvs)) ikvs"
    have rec: "cleanup_loop now ids (JObj ?ikvs1) ?s1 (cleaned + 1) = (Inr (index', cleaned'), s')"
      using Cons.prems(1,2) v True me p f
      by (simp add: Let_def map_of_Some_fst)
    have m1: "map_of ?ikvs1 ''memories'' = Some (JObj (AList.delete i mkvs))"
      by (simp add: update_conv')
    have inv1: "\<forall>j \<in> set ids. map_of (AList.delete i mkvs) j = map_of dkvs j"
      using inv notin by (auto simp: delete_conv')
    have d1: "index_file ?s1 = Some (Text (JObj dikvs))"
      using Cons.prems(3) by simp
    note IH = Cons.IH [OF rec m1 d1 Cons.prems(4) inv1 dist]
    have same: "expired now ?s1 j = expired now s j" if "j \<in> set ids" for j
    proof -
      from IH that obtain c where "and_then (get_memory ?s1 j) (is_expired now) = Inr c"
        by blast
      from this get_memory_after_remove [OF this] show ?thesis
        by (simp add: expired_def)
    qed
    then have fl: "filter (expired now ?s1) ids = filter (expired now s) ids"
      by (auto intro: filter_cong)
    have all: "\<forall>j \<in> set (i # ids). \<exists>c. and_then (get_memory s j) (is_expired now) = Inr c"
      using IH v by (auto dest: get_memory_after_remove)
    have cnt: "cleaned' = cleaned + length (filter (expired now s) (i # ids))"
      using IH ex fl by simp
    have "i \<notin> set (filter (expired now s) ids)"
      using notin by simp
    then have "AList.restrict (- set (filter (expired now s) ids)) (AList.delete i mkvs) =
        AList.restrict (- set (filter (expired now s) (i # ids))) mkvs"
      using ex by (simp add: restr_delete_twist Compl_insert)
    then have idx: "index' = JObj (AList.update ''memories''
        (JObj (AList.restrict (- set (filter (expired now s) (i # ids))) mkvs)) ikvs)"
      using IH fl by simp
    have st: "s' = s\<lparr>files := (\<lambda>q. if \<exists>j \<in> set (filter (expired now s) (i # ids)).
                record_file s j = Inr q then None else files s q)\<rparr>"
    proof -
      have "(\<lambda>q. if \<exists>j \<in> set (filter (expired now s) ids). record_file s j = Inr q
                 then None else files ?s1 q) =
            (\<lambda>q. if \<exists>j \<in> set (filter (expired now s) (i # ids)). record_file s j = Inr q
                 then None else files s q)"
        using ex rf by (auto intro!: ext)
      with IH fl show ?thesis by simp
    qed
    from all cnt idx st show ?thesis
      by blast
  qed
qed

lemma is_expired_True_iff:
  "is_expired now m = Inr True \<longleftrightarrow>
     (\<exists>kvs e. m = JObj kvs \<and> map_of kvs ''expires_at'' = Some (JStr e) \<and> e < now)"
proof (cases m)
  case (JObj kvs)
  show ?thesis
  proof (cases "map_of kvs ''expires_at''")
    case None
    then have "''expires_at'' \<notin> fst ` set kvs"
      by (simp add: map_of_eq_None_iff)
    with JObj None show ?thesis by (simp add: is_expired_def)
  next
    case (Some v)
    then have "''expires_at'' \<in> fst ` set kvs"
      by (rule map_of_Some_fst)
    with JObj Some show ?thesis
      by (cases v) (simp_all add: is_expired_def)
  qed
qed (auto simp: is_expired_def)

lemma expired_iff:
  "expired now s i \<longleftrightarrow>
     (\<exists>kvs e. get_memory s i = Inr (JObj kvs) \<and> map_of kvs ''expires_at'' = Some (JStr e) \<and> e < now)"
  by (auto simp: expired_def and_then_Inr_iff is_expired_True_iff)

lemma cleanup_expired_Inr:
  assumes i: "index_file s = Some (Text index)"
    and m: "subscript index ''memories'' = Inr (JObj mkvs)"
    and d: "distinct (map fst mkvs)"
    and c: "cleanup_expired now s = (Inr n, s')"
  shows "\<exists>ikvs ikvs'. index = JObj ikvs \<and>
          (\<forall>i \<in> set (map fst mkvs). \<exists>b. and_then (get_memory s i) (is_expired now) = Inr b) \<and>
          n = length (filter (expired now s) (map fst mkvs)) \<and>
          map_of ikvs' ''memories'' =
            Some (JObj (AList.restrict (- set (filter (expired now s) (map fst mkvs))) mkvs)) \<and>
          s' = s\<lparr>files := (\<lambda>p. if \<exists>i \<in> set (filter (expired now s) (map fst mkvs)).
                                  record_file s i = Inr p then None else files s p),
                  index_file := Some (Text (JObj ikvs'))\<rparr>"
proof -
  from m obtain ikvs where ix: "index = JObj ikvs" and mm: "map_of ikvs ''memories'' = Some (JObj mkvs)"
    by (auto simp: subscript_Inr_iff)
  let ?ids = "map fst mkvs"
  let ?E = "filter (expired now s) ?ids"
  let ?fs = "\<lambda>p. if \<exists>i \<in> set ?E. record_file s i = Inr p then None else files s p"
  obtain r s1 where l: "cleanup_loop now ?ids (JObj ikvs) s 0 = (r, s1)"
    by (cases "cleanup_loop now ?ids (JObj ikvs) s 0")
  from c i ix mm l obtain index1 cleaned where r: "r = Inr (index1, cleaned)"
    by (cases r) (auto simp: cleanup_expired_def)
  from i ix have i': "index_file s = Some (Text (JObj ikvs))" by simp
  from cleanup_loop_Inr [OF l [unfolded r] mm i' mm _ d]
  have all: "\<forall>i \<in> set ?ids. \<exists>b. and_then (get_memory s i) (is_expired now) = Inr b"
    and cl: "cleaned = length ?E"
    and i1: "index1 = JObj (AList.update ''memories'' (JObj (AList.restrict (- set ?E) mkvs)) ikvs)"
    and s1: "s1 = s\<lparr>files := ?fs\<rparr>"
    by simp_all
  show ?thesis
  proof (cases "cleaned > 0")
    case True
    with c i ix mm l r obtain index2 where
      i2: "set_in index1 ''stats'' ''last_cleanup'' (JStr now) = Inr index2" and
      n: "n = cleaned" and s': "s' = s1\<lparr>index_file := Some (Text index2)\<rparr>"
      by (auto simp: cleanup_expired_def split: sum.splits)
    from i2 i1 obtain ikvs2 where "index2 = JObj ikvs2"
      "map_of ikvs2 ''memories'' = Some (JObj (AList.restrict (- set ?E) mkvs))"
      by (auto simp: set_in_Inr_iff update_conv')
    with ix all n cl s' s1 show ?thesis by auto
  next
    case False
    with c i ix mm l r have n: "n = cleaned" and s': "s' = s1"
      by (auto simp: cleanup_expired_def)
    from False cl have "length ?E = 0" by simp
    then have E: "?E = []" by (simp only: length_0_conv)
    have "s1 = s1\<lparr>index_file := Some (Text (JObj ikvs))\<rparr>"
      using s1 i' by simp
    then have a: "s' = s\<lparr>files := ?fs, index_file := Some (Text (JObj ikvs))\<rparr>"
      using s' s1 by simp
    have b: "map_of ikvs ''memories'' = Some (JObj (AList.restrict (- set ?E) mkvs))"
      using mm by (simp only: E) simp
    from ix all n cl a b show ?thesis by blast
  qed
qed

lemma expired_in_index:
  assumes "index_file s = Some (Text (JObj ikvs))" "map_of ikvs ''memories'' = Some (JObj mkvs)"
    and "expired now s i"
  shows "i \<in> set (map fst mkvs)"
  using assms by (auto simp: expired_iff get_memory_Inr_iff dest: map_of_Some_fst)

lemma get_memory_absent:
  assumes "index_file s = Some (Text (JObj ikvs))" "map_of ikvs ''memories'' = Some (JObj mkvs)"
    and "i \<notin> fst ` set mkvs"
  shows "get_memory s i = Inl (ValueError (''Memory '' @ i @ '' not found''))"
  using assms by (simp add: get_memory_def)

lemma get_memory_present:
  assumes "index_file s = Some (Text (JObj ikvs))" "map_of ikvs ''memories'' = Some (JObj mkvs)"
    and "map_of mkvs i = Some entry"
  shows "get_memory s i =
           and_then (subscript entry ''path'') (\<lambda>p.
           and_then (as_path p) (\<lambda>memory_path. json_load (files s memory_path) memory_path))"
  using assms by (simp add: get_memory_def map_of_Some_fst)

text \<open>
  \<^bold>\<open>Claim C3.\<close> (As the code has it: the comparison is strict.) When \<^verbatim>\<open>cleanup_expired\<close> returns, it
  has removed all and only the records that carry an \<^verbatim>\<open>expires_at\<close> strictly before
  \<open>now\<close> (both are strings, compared as strings): it returns their number, the index no
  longer has an entry for any of them and is unchanged for every other id, their record
  files are gone and no other file is, and every record that is not expired reads as
  before.
\<close>

theorem cleanup_expired_strict:
  assumes i: "index_file s = Some (Text index)"
    and m: "subscript index ''memories'' = Inr (JObj mkvs)"
    and d: "distinct (map fst mkvs)"
    and c: "cleanup_expired now s = (Inr n, s')"
  shows "n = length (filter (expired now s) (map fst mkvs)) \<and>
         (\<forall>i. expired now s i \<longleftrightarrow>
            (\<exists>kvs e. get_memory s i = Inr (JObj kvs) \<and>
               map_of kvs ''expires_at'' = Some (JStr e) \<and> e < now)) \<and>
         (\<forall>i. index_lookup s' i = (if expired now s i then Inl (KeyError i) else index_lookup s i)) \<and>
         (\<forall>p. files s' p =
            (if \<exists>i. expired now s i \<and> record_file s i = Inr p then None else files s p)) \<and>
         (\<forall>i. \<not> expired now s i \<longrightarrow> get_memory s' i = get_memory s i)"
proof -
  let ?E = "filter (expired now s) (map fst mkvs)"
  from cleanup_expired_Inr [OF i m d c] obtain ikvs ikvs' where
    ix: "index = JObj ikvs" and
    all: "\<forall>i \<in> set (map fst mkvs). \<exists>b. and_then (get_memory s i) (is_expired now) = Inr b" and
    n: "n = length ?E" and
    m': "map_of ikvs' ''memories'' = Some (JObj (AList.restrict (- set ?E) mkvs))" and
    s': "s' = s\<lparr>files := (\<lambda>p. if \<exists>i \<in> set ?E. record_file s i = Inr p then None else files s p),
                  index_file := Some (Text (JObj ikvs'))\<rparr>"
    by blast
  from i ix have i0: "index_file s = Some (Text (JObj ikvs))" by simp
  from m ix have m0: "map_of ikvs ''memories'' = Some (JObj mkvs)"
    by (simp split: option.splits)
  have i1: "index_file s' = Some (Text (JObj ikvs'))"
    using s' by simp
  have inE: "j \<in> set ?E \<longleftrightarrow> expired now s j" for j
    using expired_in_index [OF i0 m0] by auto
  have look: "index_lookup s' j = (if expired now s j then Inl (KeyError j) else index_lookup s j)" for j
    using i0 m0 i1 m' inE [of j]
    by (simp add: index_lookup_def restr_conv' restrict_map_def del: set_filter)
  have fs: "files s' p = (if \<exists>j. expired now s j \<and> record_file s j = Inr p then None else files s p)" for p
  proof -
    have "(\<exists>j \<in> set ?E. record_file s j = Inr p) \<longleftrightarrow>
          (\<exists>j. expired now s j \<and> record_file s j = Inr p)"
      using inE by blast
    then show ?thesis
      by (simp add: s' del: set_filter)
  qed
  have keep: "get_memory s' j = get_memory s j" if ne: "\<not> expired now s j" for j
  proof (cases "map_of mkvs j")
    case None
    then have "j \<notin> fst ` set mkvs" "j \<notin> fst ` set (AList.restrict (- set ?E) mkvs)"
      by (auto simp: map_of_eq_None_iff)
    then show ?thesis
      using get_memory_absent [OF i0 m0] get_memory_absent [OF i1 m'] by simp
  next
    case (Some entry)
    then have "j \<in> set (map fst mkvs)"
      by (auto dest: map_of_Some_fst)
    with all obtain b where b: "and_then (get_memory s j) (is_expired now) = Inr b"
      by blast
    with ne have bF: "\<not> b" by (auto simp: expired_def)
    from b obtain mj where gj: "get_memory s j = Inr mj" and ej: "is_expired now mj = Inr b"
      by (auto simp: and_then_Inr_iff)
    from gj obtain p where pj: "record_file s j = Inr p" and fj: "files s p = Some (Text mj)"
      by (auto simp: get_memory_record_file)
    have "files s' p = files s p"
    proof -
      have "\<not> (\<exists>k. expired now s k \<and> record_file s k = Inr p)"
      proof
        assume "\<exists>k. expired now s k \<and> record_file s k = Inr p"
        then obtain k where "expired now s k" "record_file s k = Inr p" by blast
        then have "is_expired now mj = Inr True"
          using fj by (auto simp: expired_def and_then_Inr_iff get_memory_record_file)
        with ej bF show False by simp
      qed
      then show ?thesis by (auto simp: fs)
    qed
    moreover have "record_file s' j = Inr p"
      using pj i0 m0 i1 m' inE [of j] ne
      by (auto simp: record_file_Inr_iff restr_conv' restrict_map_def simp del: set_filter)
    ultimately have "get_memory s' j = Inr mj"
      using fj by (auto simp: get_memory_record_file)
    with gj show ?thesis by simp
  qed
  from n expired_iff look fs keep show ?thesis
    by blast
qed

text \<open>
  The theorem on the store with one record, swept after the record's expiry time.
\<close>

theorem cleanup_expired_strict_witness:
  "index_file store_exp = Some (Text (JObj
        [(''memories'', JObj [(''a'', JObj [(''path'', JStr ''data/memories/a.json''),
                                            (''type'', JStr ''note''),
                                            (''version'', JInt 1),
                                            (''last_updated'', JStr ''t1'')])]),
         (''stats'', JObj [])])) \<and>
   cleanup_expired ''t6'' store_exp = (Inr 1, snd (cleanup_expired ''t6'' store_exp)) \<and>
   expired ''t6'' store_exp ''a'' \<and>
   index_lookup (snd (cleanup_expired ''t6'' store_exp)) ''a'' = Inl (KeyError ''a'') \<and>
   files (snd (cleanup_expired ''t6'' store_exp)) ''data/memories/a.json'' = None"
proof -
  let ?mkvs = "[(''a'', JObj [(''path'', JStr ''data/memories/a.json''),
                                            (''type'', JStr ''note''),
                                            (''version'', JInt 1),
                                            (''last_updated'', JStr ''t1'')])]"
  let ?index = "JObj [(''memories'', JObj ?mkvs), (''stats'', JObj [])]"
  have i: "index_file store_exp = Some (Text ?index)"
    by (simp add: store_exp_def)
  have m: "subscript ?index ''memories'' = Inr (JObj ?mkvs)"
    by simp
  have d: "distinct (map fst ?mkvs)"
    by simp
  have c: "cleanup_expired ''t6'' store_exp = (Inr 1, snd (cleanup_expired ''t6'' store_exp))"
    by (rule pair_fst_snd) code_simp
  have e: "expired ''t6'' store_exp ''a''"
    by code_simp
  have r: "record_file store_exp ''a'' = Inr ''data/memories/a.json''"
    by code_simp
  note t = cleanup_expired_strict [OF i m d c]
  from t have l: "\<forall>i. index_lookup (snd (cleanup_expired ''t6'' store_exp)) i =
      (if expired ''t6'' store_exp i then Inl (KeyError i) else index_lookup store_exp i)"
    by blast
  from t have f: "\<forall>p. files (snd (cleanup_expired ''t6'' store_exp)) p =
      (if \<exists>i. expired ''t6'' store_exp i \<and> record_file store_exp i = Inr p then None
       else files store_exp p)"
    by blast
  have x: "\<exists>i. expired ''t6'' store_exp i \<and> record_file store_exp i = Inr ''data/memories/a.json''"
    using e r by blast
  have "index_lookup (snd (cleanup_expired ''t6'' store_exp)) ''a'' = Inl (KeyError ''a'')"
    using l e by simp
  moreover have "files (snd (cleanup_expired ''t6'' store_exp)) ''data/memories/a.json'' = None"
    using f x by simp
  ultimately show ?thesis
    using i c e by blast
qed

text \<open>
  With "at or before" the property fails: a record whose \<^verbatim>\<open>expires_at\<close> equals \<open>now\<close>
  stays, and the sweep returns 0 and changes nothing.
\<close>

theorem cleanup_expired_keeps_boundary:
  "and_then (get_memory store_exp ''a'') (\<lambda>m. subscript m ''expires_at'') = Inr (JStr ''t5'') \<and>
   ''t5'' \<le> ''t5'' \<and>
   cleanup_expired ''t5'' store_exp = (Inr 0, store_exp)"
  by (simp add: cleanup_expired_def store_exp_def get_memory_def is_expired_def index_path_def)

subsection \<open>Acquiring a lock\<close>

lemma file_lock_acquire_free:
  "\<not> held_at (t + k) \<Longrightarrow> \<forall>j < k. held_at (t + j) \<Longrightarrow>
   file_lock_acquire (- 1) held_at t = Some (Inr (t + k))"
proof (induction k arbitrary: t)
  case 0
  then show ?case by (simp add: file_lock_acquire.simps)
next
  case (Suc k)
  from Suc.prems(2) have h: "held_at t" by (metis add.right_neutral zero_less_Suc)
  have "file_lock_acquire (- 1) held_at (Suc t) = Some (Inr (Suc t + k))"
  proof (rule Suc.IH)
    show "\<not> held_at (Suc t + k)" using Suc.prems(1) by simp
    show "\<forall>j<k. held_at (Suc t + j)" using Suc.prems(2)
      by (metis Suc_less_eq add_Suc_right add_Suc_shift)
  qed
  with h show ?case by (subst file_lock_acquire.simps) simp
qed

lemma file_lock_acquire_Some:
  assumes "file_lock_acquire timeout held_at t = Some r" and "timeout < 0"
  shows "\<exists>k. r = Inr (t + k) \<and> \<not> held_at (t + k) \<and> (\<forall>j < k. held_at (t + j))"
  using assms
proof (induction rule: file_lock_acquire.raw_induct [rotated 1, consumes 1, case_names step])
  case (step f timeout held_at t r)
  show ?case
  proof (cases "held_at t")
    case False
    with step(2) have "r = Inr (t + 0) \<and> \<not> held_at (t + 0) \<and> (\<forall>j < 0. held_at (t + j))"
      by simp
    then show ?thesis by (rule exI)
  next
    case True
    with step(2,3) have "f timeout held_at (Suc t) = Some r" by simp
    from step(1) [OF this step(3)] obtain k where
      k: "r = Inr (Suc t + k)" "\<not> held_at (Suc t + k)" "\<forall>j < k. held_at (Suc t + j)"
      by blast
    have "\<forall>j < Suc k. held_at (t + j)"
    proof (intro allI impI)
      fix j assume "j < Suc k"
      then show "held_at (t + j)"
        using True k(3) by (cases j) auto
    qed
    with k(1,2) have "r = Inr (t + Suc k) \<and> \<not> held_at (t + Suc k) \<and> (\<forall>j < Suc k. held_at (t + j))"
      by simp
    then show ?thesis by (rule exI)
  qed
qed

lemma file_lock_acquire_timeout:
  assumes "0 \<le> timeout" and "\<forall>u. held_at u"
  shows "\<exists>e. file_lock_acquire timeout held_at t = Some (Inl e)"
proof (induction "nat timeout + 1 - t" arbitrary: t)
  case 0
  then have "timeout < int t" using assms(1) by linarith
  with assms show ?case by (subst file_lock_acquire.simps) simp
next
  case (Suc n)
  then have "n = nat timeout + 1 - Suc t" by linarith
  from Suc.hyps(1) [OF this] obtain e where "file_lock_acquire timeout held_at (Suc t) = Some (Inl e)"
    by blast
  with assms show ?case by (subst file_lock_acquire.simps) simp
qed

text \<open>
  \<^bold>\<open>Claim C4.\<close> (As the code has it: there is no timeout.) \<^verbatim>\<open>_acquire_lock\<close> returns at the first poll
  at which no other holder has the lock file of the name, whenever that is; while another
  holder keeps it for ever the call does not return; and it never fails with a timeout
  error.
\<close>

theorem acquire_lock_waits_unbounded:
  "(acquire_lock held_at = Some (Inr t) \<longleftrightarrow> \<not> held_at t \<and> (\<forall>j < t. held_at j)) \<and>
   (acquire_lock held_at = None \<longleftrightarrow> (\<forall>t. held_at t)) \<and>
   acquire_lock held_at \<noteq> Some (Inl Timeout)"
proof -
  have a: "acquire_lock held_at = Some (Inr t)" if "\<not> held_at t" "\<forall>j < t. held_at j" for t
    using file_lock_acquire_free [of held_at 0 t] that by (simp add: acquire_lock_def)
  have b: "\<exists>k. r = Inr k \<and> \<not> held_at k \<and> (\<forall>j < k. held_at j)" if "acquire_lock held_at = Some r" for r
    using file_lock_acquire_Some [of "- 1" held_at 0 r] that by (simp add: acquire_lock_def)
  have c: "acquire_lock held_at \<noteq> None" if "\<not> held_at u" for u
  proof -
    from that have "\<exists>k. \<not> held_at k" by blast
    then obtain k where "\<not> held_at k" "\<forall>j < k. held_at j"
      using exists_least_iff [of "\<lambda>k. \<not> held_at k"] by auto
    from a [OF this] show ?thesis by simp
  qed
  have 1: "acquire_lock held_at = Some (Inr t) \<longleftrightarrow> \<not> held_at t \<and> (\<forall>j < t. held_at j)"
    using a b by blast
  have 2: "acquire_lock held_at = None \<longleftrightarrow> (\<forall>t. held_at t)"
  proof
    assume n: "acquire_lock held_at = None"
    show "\<forall>t. held_at t"
    proof (rule ccontr)
      assume "\<not> (\<forall>t. held_at t)"
      then obtain u where "\<not> held_at u" by blast
      from c [OF this] n show False by simp
    qed
  next
    assume h: "\<forall>t. held_at t"
    show "acquire_lock held_at = None"
    proof (cases "acquire_lock held_at")
      case (Some r)
      from b [OF this] h show ?thesis by blast
    qed simp
  qed
  have 3: "acquire_lock held_at \<noteq> Some (Inl Timeout)"
    using b by fastforce
  from 1 2 3 show ?thesis by blast
qed

text \<open>
  The theorem for a holder that releases at the third poll.
\<close>

theorem acquire_lock_waits_unbounded_witness:
  "\<not> (3::nat) < 3 \<and> acquire_lock (\<lambda>t. t < 3) = Some (Inr 3)"
  using acquire_lock_waits_unbounded [of "\<lambda>t. t < 3" 3] by simp

text \<open>
  A bounded wait fails: against a holder that never releases, the call neither succeeds
  nor raises.
\<close>

theorem acquire_lock_never_returns: "acquire_lock (\<lambda>t. True) = None"
proof (cases "acquire_lock (\<lambda>t. True)")
  case (Some r)
  then have "file_lock_acquire (- 1) (\<lambda>t. True) 0 = Some r"
    by (simp add: acquire_lock_def)
  from file_lock_acquire_Some [OF this] show ?thesis by simp
qed simp

subsection \<open>Validated load and save\<close>

lemma restore_backup_data_other [simp]:
  "n \<noteq> name \<Longrightarrow> data (snd (restore_backup name s)) n = data s n"
  by (simp add: restore_backup_def Let_def split: option.splits)

lemma restore_backup_backups [simp]:
  "backups (snd (restore_backup name s)) = backups s"
  by (simp add: restore_backup_def Let_def split: option.splits)

lemma restore_backup_no_dir:
  "backups s name = None \<Longrightarrow> restore_backup name s = (False, s)"
  by (simp add: restore_backup_def)

lemma sorted_le_last: "sorted xs \<Longrightarrow> x \<in> set xs \<Longrightarrow> x \<le> last xs"
  for xs :: "'a::linorder list"
  by (induction xs) auto

lemma restore_backup_True:
  assumes "restore_backup name s = (True, s1)"
  shows "\<exists>dir latest c. backups s name = Some dir \<and> latest \<in> set (json_names dir) \<and>
           (\<forall>n \<in> set (json_names dir). n \<le> latest) \<and> map_of dir latest = Some c \<and>
           s1 = s\<lparr>data := (data s)(name \<mapsto> c)\<rparr>"
proof -
  from assms obtain dir c where
    d: "backups s name = Some dir" and ne: "json_names dir \<noteq> []" and
    c: "map_of dir (last (json_names dir)) = Some c" and s1: "s1 = s\<lparr>data := (data s)(name \<mapsto> c)\<rparr>"
    by (auto simp: restore_backup_def Let_def split: option.splits if_splits)
  have "sorted (json_names dir)"
    by (simp add: json_names_def)
  then have "\<forall>n \<in> set (json_names dir). n \<le> last (json_names dir)"
    by (auto intro: sorted_le_last)
  moreover have "last (json_names dir) \<in> set (json_names dir)"
    using ne by simp
  ultimately show ?thesis
    using d c s1 by blast
qed

lemma restore_backup_keeps_file:
  "data s name = Some f \<Longrightarrow> \<exists>g. data (snd (restore_backup name s)) name = Some g"
  by (simp add: restore_backup_def Let_def split: option.splits)

text \<open>A load made while the name is locked by the call around it never reads the file.\<close>

lemma load_memory_nested:
  assumes "name \<in> held" and "data s name = Some f"
  shows "load_memory H nested held name s =
           (case nested of
              Waits \<Rightarrow> (Blocks, s)
            | Raises \<Rightarrow>
                (Returns None,
                 s\<lparr>log := log s @ [LogError (''Failed to load memory '' @ name) RuntimeError]\<rparr>))"
  using assms by (subst load_memory.simps) simp

lemma load_memory_absent:
  "data s name = None \<Longrightarrow> load_memory H nested held name s = (Returns None, s)"
  by (subst load_memory.simps) simp

lemma load_memory_raises:
  "data s name = Some f \<Longrightarrow> name \<notin> held \<Longrightarrow> content_and_hash f = Inl e \<Longrightarrow>
   load_memory H nested held name s =
     (Returns None, s\<lparr>log := log s @ [LogError (''Failed to load memory '' @ name) e]\<rparr>)"
  by (subst load_memory.simps) simp

lemma load_memory_corrupt:
  assumes "data s name = Some Corrupt" and "name \<notin> held"
  shows "load_memory H nested held name s =
     (Returns None,
      s\<lparr>log := log s @ [LogError (''Failed to load memory '' @ name) JSONDecodeError]\<rparr>)"
proof -
  have "content_and_hash Corrupt = Inl JSONDecodeError"
    by (simp add: content_and_hash_def)
  from load_memory_raises [OF assms this] show ?thesis .
qed

lemma load_memory_ok:
  "data s name = Some f \<Longrightarrow> name \<notin> held \<Longrightarrow> holds_valid H f c \<Longrightarrow>
   load_memory H nested held name s = (Returns (Some c), s)"
  by (subst load_memory.simps) (simp add: holds_valid_def)

text \<open>
  On every hash mismatch the most recent snapshot, if any, is restored once, and the
  retried load stops at the lock: it waits, or it raises and \<^verbatim>\<open>None\<close> is returned. The
  restored file is never read.
\<close>

lemma load_memory_mismatch:
  assumes f: "data s name = Some f" and m: "mismatch H f" and h: "name \<notin> held"
  shows "load_memory H nested held name s =
          (let s1 = snd (restore_backup name
                 (s\<lparr>log := log s @
                    [LogWarning (''Memory '' @ name @ '' failed hash validation'')]\<rparr>))
           in case nested of
                Waits \<Rightarrow> (Blocks, s1)
              | Raises \<Rightarrow>
                  (Returns None,
                   s1\<lparr>log := log s1 @
                      [LogError (''Failed to load memory '' @ name) RuntimeError]\<rparr>))"
proof -
  let ?s0 = "s\<lparr>log := log s @ [LogWarning (''Memory '' @ name @ '' failed hash validation'')]\<rparr>"
  let ?s1 = "snd (restore_backup name ?s0)"
  from m obtain c0 h0 where ch: "content_and_hash f = Inr (c0, h0)" "JStr (hash_dict H c0) \<noteq> h0"
    by (auto simp: mismatch_def split: sum.splits)
  from f have "data ?s0 name = Some f" by simp
  from restore_backup_keeps_file [OF this] obtain g where g: "data ?s1 name = Some g"
    by blast
  have n: "load_memory H nested (insert name held) name ?s1 =
      (case nested of
         Waits \<Rightarrow> (Blocks, ?s1)
       | Raises \<Rightarrow>
           (Returns None,
            ?s1\<lparr>log := log ?s1 @ [LogError (''Failed to load memory '' @ name) RuntimeError]\<rparr>))"
    by (rule load_memory_nested [OF _ g]) simp
  have e: "load_memory H nested held name s = load_memory H nested (insert name held) name ?s1"
    using f h ch by (subst load_memory.simps) simp
  show ?thesis
    unfolding Let_def by (rule trans [OF e n])
qed

lemma load_memory_valid:
  assumes "load_memory H nested held name s = (Returns (Some c), s')"
  shows "s' = s \<and> name \<notin> held \<and> (\<exists>f. data s name = Some f \<and> holds_valid H f c)"
proof (cases "data s name")
  case None
  with assms show ?thesis by (simp add: load_memory_absent)
next
  case (Some f)
  show ?thesis
  proof (cases "name \<in> held")
    case True
    from assms load_memory_nested [OF True Some, of H nested] show ?thesis
      by (cases nested) simp_all
  next
    case False
    show ?thesis
    proof (cases "content_and_hash f")
      case (Inl e)
      from assms load_memory_raises [OF Some False Inl, of H nested] show ?thesis by simp
    next
      case (Inr ch)
      obtain c0 h0 where ch: "ch = (c0, h0)" by (cases ch)
      show ?thesis
      proof (cases "JStr (hash_dict H c0) = h0")
        case True
        with Inr ch have v: "holds_valid H f c0" by (simp add: holds_valid_def)
        from assms load_memory_ok [OF Some False v, of nested] v Some False show ?thesis
          by auto
      next
        case ne: False
        with Inr ch have "mismatch H f" by (simp add: mismatch_def)
        from assms load_memory_mismatch [OF Some this False, of nested] show ?thesis
          by (cases nested) (simp_all add: Let_def)
      qed
    qed
  qed
qed

text \<open>
  \<^bold>\<open>Claim C1.\<close> A data file with a wrong recorded hash whose most recent snapshot holds a
  content with its own hash: the load restores that snapshot, and the retry, which
  should return the snapshot's content, asks for the lock that the outer call holds. It
  waits without end, or (where the package raises) the load returns \<^verbatim>\<open>None\<close>; the
  restored content is not returned.
\<close>

theorem load_memory_retry_never_reads:
  "data core_backed ''m'' = Some (saved (JInt 2) ''bad'') \<and>
   mismatch (\<lambda>b. b) (saved (JInt 2) ''bad'') \<and>
   holds_valid (\<lambda>b. b) (saved (JInt 1) ''1'') (JInt 1) \<and>
   load_memory (\<lambda>b. b) Waits {} ''m'' core_backed =
     (Blocks,
      core_backed\<lparr>log := [LogWarning ''Memory m failed hash validation''],
                  data := (data core_backed)(''m'' \<mapsto> saved (JInt 1) ''1'')\<rparr>) \<and>
   load_memory (\<lambda>b. b) Raises {} ''m'' core_backed =
     (Returns None,
      core_backed\<lparr>data := (data core_backed)(''m'' \<mapsto> saved (JInt 1) ''1''),
                  log := [LogWarning ''Memory m failed hash validation'',
                          LogError ''Failed to load memory m'' RuntimeError]\<rparr>)"
proof -
  have f: "data core_backed ''m'' = Some (saved (JInt 2) ''bad'')"
    by (simp add: core_backed_def)
  have m: "mismatch (\<lambda>b. b) (saved (JInt 2) ''bad'')"
    by code_simp
  have v: "holds_valid (\<lambda>b. b) (saved (JInt 1) ''1'') (JInt 1)"
    by code_simp
  have h: "''m'' \<notin> ({} :: string set)"
    by simp
  have r: "snd (restore_backup ''m''
        (core_backed\<lparr>log := log core_backed @
           [LogWarning (''Memory '' @ ''m'' @ '' failed hash validation'')]\<rparr>)) =
      core_backed\<lparr>log := [LogWarning ''Memory m failed hash validation''],
                  data := (data core_backed)(''m'' \<mapsto> saved (JInt 1) ''1'')\<rparr>"
    by (simp add: restore_backup_def core_backed_def json_names_def endswith_def)
  from load_memory_mismatch [OF f m h, of Waits] load_memory_mismatch [OF f m h, of Raises] r f m v
  show ?thesis
    by (simp add: Let_def)
qed

lemma remove_each_log_free:
  "remove_each U olds dir = (r, dir') \<Longrightarrow> r = None \<or> (\<exists>old. r = Some (OSError old) \<and> old \<in> U)"
  by (induction olds arbitrary: dir) (auto split: if_splits)

lemma quick_backup_data [simp]: "data (snd (quick_backup U ts name s)) = data s"
  by (simp add: quick_backup_def Let_def split: option.splits prod.splits)

lemma quick_backup_log [simp]: "log (snd (quick_backup U ts name s)) = log s"
  by (simp add: quick_backup_def Let_def split: option.splits prod.splits)

lemma save_memory_True:
  assumes "fst (save_memory H U now ts name content s)"
  shows "data (snd (save_memory H U now ts name content s)) name =
           Some (Text (JObj [(''content'', content), (''updated_at'', JStr now),
                             (''hash'', JStr (hash_dict H content))]))"
  using assms by (auto simp: save_memory_def split: prod.splits option.splits)

lemma save_memory_False:
  assumes "\<not> fst (save_memory H U now ts name content s)"
  shows "data (snd (save_memory H U now ts name content s)) = data s \<and>
         (\<exists>e. log (snd (save_memory H U now ts name content s)) =
                 log s @ [LogError (''Failed to save memory '' @ name) e])"
proof -
  obtain r s1 where q: "quick_backup U ts name s = (r, s1)"
    by (cases "quick_backup U ts name s")
  then have "data s1 = data s" "log s1 = log s"
    using quick_backup_data [of U ts name s] quick_backup_log [of U ts name s] by simp_all
  with assms q show ?thesis
    by (auto simp: save_memory_def split: option.splits)
qed

lemma get_memory_reads_record_file:
  assumes "record_file st i = Inr p"
  shows "get_memory st i = json_load (files st p) p"
proof -
  from assms obtain ikvs mkvs ekvs where
    "index_file st = Some (Text (JObj ikvs))" "map_of ikvs ''memories'' = Some (JObj mkvs)"
    "map_of mkvs i = Some (JObj ekvs)" "map_of ekvs ''path'' = Some (JStr p)"
    by (auto simp: record_file_Inr_iff)
  then show ?thesis
    by (simp add: get_memory_present)
qed

text \<open>
  \<^bold>\<open>Claim C8.\<close> (As the code has it: \<^verbatim>\<open>CascadeCore\<close> catches every exception.) \<^verbatim>\<open>load_memory\<close>
  returns \<^verbatim>\<open>None\<close> for a name with no data file, and the same \<^verbatim>\<open>None\<close>, with a line
  in the log, for a data file that cannot be parsed and for every other exception raised
  while the file is read; it returns the content when the recorded hash is the hash of
  the content. \<^verbatim>\<open>save_memory\<close> returns \<^verbatim>\<open>True\<close> when the data file now holds the content
  with its hash, and \<^verbatim>\<open>False\<close>, with a line in the log and the data files as they were,
  when an exception occurred. The operations of \<^verbatim>\<open>CascadeMemory\<close> do raise:
  \<^verbatim>\<open>get_memory\<close> of an id that the index does not hold raises the \<^verbatim>\<open>ValueError\<close>
  "Memory ... not found", and of a record file that cannot be parsed the decoding error.
\<close>

theorem core_operations_return_defaults:
  "(data s name = None \<longrightarrow> load_memory H nested held name s = (Returns None, s)) \<and>
   (data s name = Some Corrupt \<and> name \<notin> held \<longrightarrow>
      load_memory H nested held name s =
        (Returns None,
         s\<lparr>log := log s @ [LogError (''Failed to load memory '' @ name) JSONDecodeError]\<rparr>)) \<and>
   (data s name = Some f \<and> name \<notin> held \<and> content_and_hash f = Inl e \<longrightarrow>
      load_memory H nested held name s =
        (Returns None, s\<lparr>log := log s @ [LogError (''Failed to load memory '' @ name) e]\<rparr>)) \<and>
   (data s name = Some f \<and> name \<notin> held \<and> holds_valid H f c \<longrightarrow>
      load_memory H nested held name s = (Returns (Some c), s)) \<and>
   (fst (save_memory H U now ts name content s) \<longrightarrow>
      data (snd (save_memory H U now ts name content s)) name =
        Some (Text (JObj [(''content'', content), (''updated_at'', JStr now),
                          (''hash'', JStr (hash_dict H content))]))) \<and>
   (\<not> fst (save_memory H U now ts name content s) \<longrightarrow>
      data (snd (save_memory H U now ts name content s)) = data s \<and>
      (\<exists>e. log (snd (save_memory H U now ts name content s)) =
              log s @ [LogError (''Failed to save memory '' @ name) e])) \<and>
   (index_file st = Some (Text (JObj ikvs)) \<and> map_of ikvs ''memories'' = Some (JObj mkvs) \<and>
    i \<notin> fst ` set mkvs \<longrightarrow>
      get_memory st i = Inl (ValueError (''Memory '' @ i @ '' not found''))) \<and>
   (record_file st i = Inr p \<and> files st p = Some Corrupt \<longrightarrow>
      get_memory st i = Inl JSONDecodeError)"
proof -
  have 5: "get_memory st i = Inl JSONDecodeError"
    if "record_file st i = Inr p" "files st p = Some Corrupt"
    using get_memory_reads_record_file [OF that(1)] that(2) by simp
  from 5 load_memory_absent [of s name H nested held] load_memory_corrupt [of s name held H nested]
    load_memory_raises [of s name f held e H nested] load_memory_ok [of s name f held H c nested]
    save_memory_True [of H U now ts name content s] save_memory_False [of H U now ts name content s]
    get_memory_absent [of st ikvs mkvs i]
  show ?thesis
    by blast
qed

text \<open>
  The theorem on a name with no file, on an unparsable file, on a file with the right
  hash, on a save that succeeds and one that fails, and on a store asked for an unknown
  id and for a damaged record.
\<close>

theorem core_operations_return_defaults_witness:
  "data core_corrupt ''other'' = None \<and>
   load_memory (\<lambda>b. b) Waits {} ''other'' core_corrupt = (Returns None, core_corrupt) \<and>
   data core_corrupt ''m'' = Some Corrupt \<and>
   load_memory (\<lambda>b. b) Waits {} ''m'' core_corrupt =
     (Returns None,
      core_corrupt\<lparr>log := log core_corrupt @
         [LogError (''Failed to load memory '' @ ''m'') JSONDecodeError]\<rparr>) \<and>
   data core_full ''m'' = Some (saved (JInt 5) ''5'') \<and>
   holds_valid (\<lambda>b. b) (saved (JInt 5) ''5'') (JInt 5) \<and>
   load_memory (\<lambda>b. b) Waits {} ''m'' core_full = (Returns (Some (JInt 5)), core_full) \<and>
   fst (save_memory (\<lambda>b. b) {} ''t9'' ''20240101_000005'' ''m'' (JInt 6) core_full) \<and>
   data (snd (save_memory (\<lambda>b. b) {} ''t9'' ''20240101_000005'' ''m'' (JInt 6) core_full)) ''m'' =
     Some (Text (JObj [(''content'', JInt 6), (''updated_at'', JStr ''t9''),
                       (''hash'', JStr (hash_dict (\<lambda>b. b) (JInt 6)))])) \<and>
   \<not> fst (save_memory (\<lambda>b. b) {''20240101_000001.json''} ''t9'' ''20240101_000005'' ''m'' (JInt 6)
          core_full) \<and>
   data (snd (save_memory (\<lambda>b. b) {''20240101_000001.json''} ''t9'' ''20240101_000005'' ''m''
          (JInt 6) core_full)) = data core_full \<and>
   get_memory store0 ''zz'' = Inl (ValueError (''Memory '' @ ''zz'' @ '' not found'')) \<and>
   record_file store_corrupt ''a'' = Inr ''data/memories/a.json'' \<and>
   files store_corrupt ''data/memories/a.json'' = Some Corrupt \<and>
   get_memory store_corrupt ''a'' = Inl JSONDecodeError"
proof -
  have a: "data core_corrupt ''other'' = None" and c: "data core_corrupt ''m'' = Some Corrupt"
    by (simp_all add: core_corrupt_def)
  have h: "''m'' \<notin> ({} :: string set)"
    by simp
  have g: "data core_full ''m'' = Some (saved (JInt 5) ''5'')"
    by (simp add: core_full_def)
  have v: "holds_valid (\<lambda>b. b) (saved (JInt 5) ''5'') (JInt 5)"
    by code_simp
  have s: "fst (save_memory (\<lambda>b. b) {} ''t9'' ''20240101_000005'' ''m'' (JInt 6) core_full)"
    by code_simp
  have f: "\<not> fst (save_memory (\<lambda>b. b) {''20240101_000001.json''} ''t9'' ''20240101_000005'' ''m''
          (JInt 6) core_full)"
    by code_simp
  have i: "index_file store0 = Some (Text (JObj [(''memories'', JObj []), (''stats'', JObj [])]))"
    by (simp add: store0_def)
  have m: "map_of [(''memories'', JObj []), (''stats'', JObj [])] ''memories'' = Some (JObj [])"
    by simp
  have z: "''zz'' \<notin> fst ` set ([] :: (string \<times> json) list)"
    by simp
  have r: "record_file store_corrupt ''a'' = Inr ''data/memories/a.json''"
    by code_simp
  have k: "files store_corrupt ''data/memories/a.json'' = Some Corrupt"
    by (simp add: store_corrupt_def)
  note t1 = core_operations_return_defaults [where s = core_corrupt and name = "''other''" and
      H = "\<lambda>b. b" and nested = Waits and held = "{}"]
  note t2 = core_operations_return_defaults [where s = core_corrupt and name = "''m''" and
      H = "\<lambda>b. b" and nested = Waits and held = "{}"]
  note t3 = core_operations_return_defaults [where s = core_full and name = "''m''" and
      H = "\<lambda>b. b" and U = "{}" and now = "''t9''" and
      ts = "''20240101_000005''" and content = "JInt 6" and nested = Waits and held = "{}" and
      f = "saved (JInt 5) ''5''" and c = "JInt 5"]
  note t4 = core_operations_return_defaults [where s = core_full and name = "''m''" and
      H = "\<lambda>b. b" and U = "{''20240101_000001.json''}" and now = "''t9''" and
      ts = "''20240101_000005''" and content = "JInt 6"]
  note t5 = core_operations_return_defaults [where st = store0 and
      ikvs = "[(''memories'', JObj []), (''stats'', JObj [])]" and mkvs = "[]" and i = "''zz''"]
  note t6 = core_operations_return_defaults [where st = store_corrupt and i = "''a''" and
      p = "''data/memories/a.json''"]
  from t1 a have 1: "load_memory (\<lambda>b. b) Waits {} ''other'' core_corrupt = (Returns None, core_corrupt)"
    by blast
  from t2 c h have 2: "load_memory (\<lambda>b. b) Waits {} ''m'' core_corrupt =
     (Returns None,
      core_corrupt\<lparr>log := log core_corrupt @
         [LogError (''Failed to load memory '' @ ''m'') JSONDecodeError]\<rparr>)"
    by blast
  from t3 g h v have 7: "load_memory (\<lambda>b. b) Waits {} ''m'' core_full = (Returns (Some (JInt 5)), core_full)"
    by blast
  from t3 s have 3: "data (snd (save_memory (\<lambda>b. b) {} ''t9'' ''20240101_000005'' ''m'' (JInt 6) core_full)) ''m'' =
     Some (Text (JObj [(''content'', JInt 6), (''updated_at'', JStr ''t9''),
                       (''hash'', JStr (hash_dict (\<lambda>b. b) (JInt 6)))]))"
    by blast
  from t4 f have 4: "data (snd (save_memory (\<lambda>b. b) {''20240101_000001.json''} ''t9''
      ''20240101_000005'' ''m'' (JInt 6) core_full)) = data core_full"
    by blast
  from t5 i m z have 5: "get_memory store0 ''zz'' = Inl (ValueError (''Memory '' @ ''zz'' @ '' not found''))"
    by blast
  from t6 r k have 6: "get_memory store_corrupt ''a'' = Inl JSONDecodeError"
    by blast
  from a c g v s f r k 1 2 3 4 5 6 7 show ?thesis by blast
qed

text \<open>
  An error is not told apart from "no data": the load of an unparsable file and the load
  of a name that was never saved both return \<^verbatim>\<open>None\<close>, and a save that failed returns
  \<^verbatim>\<open>False\<close>.
\<close>

theorem load_memory_error_looks_like_no_data:
  "data core_corrupt ''m'' = Some Corrupt \<and>
   data core_corrupt ''other'' = None \<and>
   fst (load_memory (\<lambda>b. b) Waits {} ''m'' core_corrupt) = Returns None \<and>
   fst (load_memory (\<lambda>b. b) Waits {} ''other'' core_corrupt) = Returns None \<and>
   fst (load_memory (\<lambda>b. b) Raises {} ''m'' core_corrupt) = Returns None \<and>
   fst (load_memory (\<lambda>b. b) Raises {} ''other'' core_corrupt) = Returns None \<and>
   fst (save_memory (\<lambda>b. b) {''20240101_000001.json''} ''t9'' ''20240101_000005'' ''m'' (JInt 6)
          core_full) = False"
proof -
  have a: "data core_corrupt ''other'' = None" and c: "data core_corrupt ''m'' = Some Corrupt"
    by (simp_all add: core_corrupt_def)
  have h: "''m'' \<notin> ({} :: string set)"
    by simp
  have f: "fst (save_memory (\<lambda>b. b) {''20240101_000001.json''} ''t9'' ''20240101_000005'' ''m''
          (JInt 6) core_full) = False"
    by code_simp
  from a c f load_memory_absent [OF a, of "\<lambda>b. b" Waits "{}"]
    load_memory_absent [OF a, of "\<lambda>b. b" Raises "{}"]
    load_memory_corrupt [OF c h, of "\<lambda>b. b" Waits] load_memory_corrupt [OF c h, of "\<lambda>b. b" Raises]
  show ?thesis
    by simp
qed

subsection \<open>Pruning of backups\<close>

lemma rmtree_each_filter:
  "rmtree_each U bs entries = filter (\<lambda>e. fst e \<notin> set bs - U) entries"
proof (induction bs arbitrary: entries)
  case Nil
  then show ?case by simp
next
  case (Cons b bs)
  show ?case
  proof (cases "b \<in> U")
    case True
    then have "set (b # bs) - U = set bs - U" by auto
    with True Cons.IH show ?thesis by simp
  next
    case False
    have "filter (\<lambda>e. fst e \<notin> set bs - U) (filter (\<lambda>e. fst e \<noteq> b) entries) =
          filter (\<lambda>e. fst e \<notin> set (b # bs) - U) entries"
      using False by (auto intro: filter_cong)
    with False Cons.IH show ?thesis by simp
  qed
qed

lemma snapshots_filter:
  "snapshots (filter (\<lambda>e. P (fst e)) entries) = filter P (snapshots entries)"
proof -
  let ?Q = "\<lambda>(item, is_dir). is_dir \<and> startswith item ''cascade_backup_''"
  have "filter P (snapshots entries) = rev (filter P (sort (map fst (filter ?Q entries))))"
    by (simp only: snapshots_def rev_filter)
  also have "\<dots> = rev (sort (filter P (map fst (filter ?Q entries))))"
    by (simp only: filter_sort)
  also have "\<dots> = rev (sort (map fst (filter (\<lambda>e. P (fst e)) (filter ?Q entries))))"
    by (simp only: filter_map comp_def)
  also have "filter (\<lambda>e. P (fst e)) (filter ?Q entries) = filter ?Q (filter (\<lambda>e. P (fst e)) entries)"
    by (simp only: filter_filter conj_commute)
  finally show ?thesis
    by (simp only: snapshots_def)
qed

lemma distinct_snapshots: "distinct (map fst entries) \<Longrightarrow> distinct (snapshots entries)"
  by (simp add: snapshots_def distinct_map_filter)

lemma snapshots_newest_first: "sorted (rev (snapshots entries))"
  by (simp add: snapshots_def)

lemma filter_take_distinct:
  assumes "distinct xs"
  shows "filter (\<lambda>x. x \<notin> set (drop k xs)) xs = take k xs"
proof -
  let ?P = "\<lambda>x. x \<notin> set (drop k xs)"
  have "set (take k xs) \<inter> set (drop k xs) = {}"
    using assms by (metis append_take_drop_id distinct_append)
  then have 1: "filter ?P (take k xs) = take k xs"
    by (auto intro!: filter_True)
  have 2: "filter ?P (drop k xs) = []"
    by (auto intro!: filter_False)
  have "filter ?P xs = filter ?P (take k xs) @ filter ?P (drop k xs)"
    by (metis append_take_drop_id filter_append)
  with 1 2 show ?thesis by simp
qed

lemma cleanup_old_backups_snapshots:
  assumes "0 \<le> keep_last"
  shows "snapshots (backup_dir (cleanup_old_backups U keep_last s)) =
           filter (\<lambda>b. b \<notin> set (drop (nat keep_last) (snapshots (backup_dir s))) \<or> b \<in> U)
             (snapshots (backup_dir s))"
proof -
  let ?old = "drop (nat keep_last) (snapshots (backup_dir s))"
  have "backup_dir (cleanup_old_backups U keep_last s) =
        rmtree_each U ?old (backup_dir s)"
    using assms by (simp add: cleanup_old_backups_def slice_from_def)
  then have "snapshots (backup_dir (cleanup_old_backups U keep_last s)) =
        filter (\<lambda>b. b \<notin> set ?old - U) (snapshots (backup_dir s))"
    using snapshots_filter [of "\<lambda>b. b \<notin> set ?old - U" "backup_dir s"]
    by (simp only: rmtree_each_filter)
  also have "\<dots> = filter (\<lambda>b. b \<notin> set ?old \<or> b \<in> U) (snapshots (backup_dir s))"
    by (auto intro: filter_cong)
  finally show ?thesis .
qed

text \<open>
  \<^verbatim>\<open>cleanup_old_backups\<close> with a retention bound \<open>keep_last \<ge> 0\<close>: the backups left are
  the \<open>keep_last\<close> newest by name together with the older ones that could not be removed;
  when every removal succeeds, exactly the \<open>min m keep_last\<close> newest are left; and every
  backup kept by the bound is at least as new as every backup beyond it. The names end in
  a timestamp of fixed width, so their order is the order of the timestamps.
\<close>

theorem cleanup_old_backups_keeps_newest:
  assumes k: "0 \<le> keep_last" and d: "distinct (map fst (backup_dir s))"
  shows "set (snapshots (backup_dir (cleanup_old_backups U keep_last s))) =
           set (take (nat keep_last) (snapshots (backup_dir s))) \<union>
           (set (drop (nat keep_last) (snapshots (backup_dir s))) \<inter> U) \<and>
         (U \<inter> set (snapshots (backup_dir s)) = {} \<longrightarrow>
            snapshots (backup_dir (cleanup_old_backups U keep_last s)) =
              take (nat keep_last) (snapshots (backup_dir s)) \<and>
            length (snapshots (backup_dir (cleanup_old_backups U keep_last s))) =
              min (length (snapshots (backup_dir s))) (nat keep_last)) \<and>
         (\<forall>a \<in> set (take (nat keep_last) (snapshots (backup_dir s))).
            \<forall>b \<in> set (drop (nat keep_last) (snapshots (backup_dir s))). b \<le> a)"
proof -
  let ?sn = "snapshots (backup_dir s)"
  let ?n = "nat keep_last"
  note eq = cleanup_old_backups_snapshots [OF k, of U s]
  have ds: "distinct ?sn" using d by (rule distinct_snapshots)
  have split: "set ?sn = set (take ?n ?sn) \<union> set (drop ?n ?sn)"
    by (metis append_take_drop_id set_append)
  have disj: "set (take ?n ?sn) \<inter> set (drop ?n ?sn) = {}"
    using ds by (metis append_take_drop_id distinct_append)
  have 1: "set (snapshots (backup_dir (cleanup_old_backups U keep_last s))) =
        set (take ?n ?sn) \<union> (set (drop ?n ?sn) \<inter> U)"
    unfolding eq using split disj by auto
  have 2: "snapshots (backup_dir (cleanup_old_backups U keep_last s)) = take ?n ?sn \<and>
        length (snapshots (backup_dir (cleanup_old_backups U keep_last s))) = min (length ?sn) ?n"
    if "U \<inter> set ?sn = {}"
  proof -
    have "filter (\<lambda>b. b \<notin> set (drop ?n ?sn) \<or> b \<in> U) ?sn =
          filter (\<lambda>b. b \<notin> set (drop ?n ?sn)) ?sn"
      using that by (auto intro: filter_cong)
    then have "snapshots (backup_dir (cleanup_old_backups U keep_last s)) = take ?n ?sn"
      unfolding eq using filter_take_distinct [OF ds] by simp
    then show ?thesis by simp
  qed
  have 3: "\<forall>a \<in> set (take ?n ?sn). \<forall>b \<in> set (drop ?n ?sn). b \<le> a"
  proof -
    have "sorted (rev (take ?n ?sn @ drop ?n ?sn))"
      using snapshots_newest_first [of "backup_dir s"] by simp
    then show ?thesis
      unfolding rev_append sorted_append by auto
  qed
  from 1 2 3 show ?thesis by blast
qed

lemma remove_each_none:
  "set olds \<inter> U = {} \<Longrightarrow>
   remove_each U olds dir = (None, filter (\<lambda>e. fst e \<notin> set olds) dir)"
proof (induction olds arbitrary: dir)
  case Nil
  then show ?case by simp
next
  case (Cons old olds)
  have "filter (\<lambda>e. fst e \<notin> set olds) (AList.delete old dir) =
        filter (\<lambda>e. fst e \<notin> set (old # olds)) dir"
    by (auto simp: AList.delete_eq intro: filter_cong)
  with Cons show ?case by simp
qed

lemma json_names_filter:
  "json_names (filter (\<lambda>e. P (fst e)) dir) = filter P (json_names dir)"
proof -
  have "filter P (json_names dir) =
        sort (filter (\<lambda>f. endswith f ''.json'') (filter P (map fst dir)))"
    by (simp only: json_names_def filter_sort filter_filter conj_commute)
  also have "filter P (map fst dir) = map fst (filter (\<lambda>e. P (fst e)) dir)"
    by (simp only: filter_map comp_def)
  finally show ?thesis
    by (simp only: json_names_def)
qed

lemma filter_drop_distinct:
  assumes "distinct xs"
  shows "filter (\<lambda>x. x \<notin> set (take k xs)) xs = drop k xs"
proof -
  let ?P = "\<lambda>x. x \<notin> set (take k xs)"
  have "set (take k xs) \<inter> set (drop k xs) = {}"
    using assms by (metis append_take_drop_id distinct_append)
  then have 1: "filter ?P (drop k xs) = drop k xs"
    by (auto intro!: filter_True)
  have 2: "filter ?P (take k xs) = []"
    by (auto intro!: filter_False)
  have "filter ?P xs = filter ?P (take k xs) @ filter ?P (drop k xs)"
    by (metis append_take_drop_id filter_append)
  with 1 2 show ?thesis by simp
qed

lemma distinct_json_names: "distinct (map fst dir) \<Longrightarrow> distinct (json_names dir)"
  by (simp add: json_names_def)

text \<open>
  \<^verbatim>\<open>_quick_backup\<close>, when every removal succeeds: the backups left are the last three
  names in sorted order.
\<close>

lemma quick_backup_keeps_three:
  assumes src: "data s name = Some src"
    and dir: "dir = (case backups s name of None \<Rightarrow> [] | Some d \<Rightarrow> d)"
    and dist: "distinct (map fst dir)"
    and names: "names = json_names (AList.update (timestamp @ ''.json'') src dir)"
    and free: "set (take (length names - 3) names) \<inter> U = {}"
  shows "fst (quick_backup U timestamp name s) = None \<and>
         map_option json_names (backups (snd (quick_backup U timestamp name s)) name) =
           Some (drop (length names - 3) names)"
proof -
  let ?dir1 = "AList.update (timestamp @ ''.json'') src dir"
  let ?olds = "take (length names - 3) names"
  have r: "remove_each U ?olds ?dir1 = (None, filter (\<lambda>e. fst e \<notin> set ?olds) ?dir1)"
    using free by (rule remove_each_none)
  have d1: "distinct (json_names ?dir1)"
    using dist by (intro distinct_json_names) (simp add: distinct_update)
  have "json_names (filter (\<lambda>e. fst e \<notin> set ?olds) ?dir1) =
        filter (\<lambda>x. x \<notin> set ?olds) (json_names ?dir1)"
    using json_names_filter [of "\<lambda>x. x \<notin> set ?olds" ?dir1] by simp
  also have "\<dots> = drop (length names - 3) names"
    using filter_drop_distinct [OF d1, of "length names - 3"] names by simp
  finally have j: "json_names (filter (\<lambda>e. fst e \<notin> set ?olds) ?dir1) =
      drop (length names - 3) names" .
  from src dir names r j show ?thesis
    by (simp add: quick_backup_def Let_def)
qed

text \<open>
  \<^bold>\<open>Claim C9.\<close> The pruning loop of \<^verbatim>\<open>_quick_backup\<close> stops at the first backup that cannot be removed.
  With four backups of which the oldest cannot be removed, the next save copies a fifth,
  fails to remove the oldest, and leaves the second oldest in place as well: five
  backups remain instead of the three most recent and the one that is stuck. The
  exception also ends \<^verbatim>\<open>save_memory\<close>, which returns \<^verbatim>\<open>False\<close> without writing the data
  file.
\<close>

theorem quick_backup_stops_at_first_failure:
  "map_option (map fst) (backups core_full ''m'') =
     Some [''20240101_000001.json'', ''20240101_000002.json'', ''20240101_000003.json'',
           ''20240101_000004.json''] \<and>
   fst (quick_backup {''20240101_000001.json''} ''20240101_000005'' ''m'' core_full) =
     Some (OSError ''20240101_000001.json'') \<and>
   map_option (map fst)
     (backups (snd (quick_backup {''20240101_000001.json''} ''20240101_000005'' ''m'' core_full)) ''m'') =
     Some [''20240101_000001.json'', ''20240101_000002.json'', ''20240101_000003.json'',
           ''20240101_000004.json'', ''20240101_000005.json''] \<and>
   save_memory (\<lambda>b. b) {''20240101_000001.json''} ''t9'' ''20240101_000005'' ''m'' (JInt 6) core_full =
     (False,
      (snd (quick_backup {''20240101_000001.json''} ''20240101_000005'' ''m'' core_full))
        \<lparr>log := [LogError ''Failed to save memory m'' (OSError ''20240101_000001.json'')]\<rparr>) \<and>
   data (snd (save_memory (\<lambda>b. b) {''20240101_000001.json''} ''t9'' ''20240101_000005'' ''m'' (JInt 6)
           core_full)) ''m'' = data core_full ''m''"
  by (simp add: quick_backup_def save_memory_def core_full_def json_names_def endswith_def saved_def)

subsection \<open>Safety records\<close>




end
